theory Spec2Isabelle
  imports Main
begin

section \<open>JavaScript strings\<close>

text \<open>
  A JavaScript string is a sequence of UTF-16 code units. The source matches and compares
  non-ASCII text (full-width punctuation, Chinese keywords), so a string is modelled as the
  list of its code units; \<open>ascii\<close> embeds an ASCII literal.
\<close>

type_synonym jstring = "nat list"

definition ascii :: "string \<Rightarrow> jstring" where
  "ascii s = map of_char s"

section \<open>Dedup\<close>

text \<open>
  \<^verbatim>\<open>const seen = new Map();  const SEEN_TTL_MS = 10 * 60 * 1000;\<close>
  The map is kept in insertion order, as a JavaScript \<open>Map\<close> is; \<open>Date.now()\<close> is the
  argument \<open>now\<close> (milliseconds), and a missing \<open>messageId\<close> is \<open>None\<close>.
\<close>

type_synonym seen_map = "(jstring \<times> int) list"

definition SEEN_TTL_MS :: int where
  "SEEN_TTL_MS = 10 * 60 * 1000"

text \<open>\<^verbatim>\<open>for (const [k, ts] of seen) { if (now - ts > SEEN_TTL_MS) seen.delete(k); }\<close>\<close>

fun purge :: "int \<Rightarrow> seen_map \<Rightarrow> seen_map" where
  "purge now [] = []"
| "purge now ((k, ts) # seen) =
     (if now - ts > SEEN_TTL_MS then purge now seen else (k, ts) # purge now seen)"

definition seen_has :: "seen_map \<Rightarrow> jstring \<Rightarrow> bool" where
  "seen_has seen k = (map_of seen k \<noteq> None)"

text \<open>\<open>seen.set(k, v)\<close>: an existing key keeps its place, a new one goes last.\<close>

fun seen_set :: "seen_map \<Rightarrow> jstring \<Rightarrow> int \<Rightarrow> seen_map" where
  "seen_set [] k v = [(k, v)]"
| "seen_set ((k', v') # seen) k v =
     (if k' = k then (k, v) # seen else (k', v') # seen_set seen k v)"

text \<open>
  \<^verbatim>\<open>
  function isDuplicate(messageId) {
    const now = Date.now();
    for (const [k, ts] of seen) { if (now - ts > SEEN_TTL_MS) seen.delete(k); }
    if (!messageId) return false;
    if (seen.has(messageId)) return true;
    seen.set(messageId, now);
    return false;
  }\<close>
  The result is the returned boolean and the map as the call leaves it.
\<close>

definition isDuplicate :: "int \<Rightarrow> jstring option \<Rightarrow> seen_map \<Rightarrow> bool \<times> seen_map" where
  "isDuplicate now messageId seen =
     (let seen1 = purge now seen in
      case messageId of
        None \<Rightarrow> (False, seen1)
      | Some m \<Rightarrow>
          if m = [] then (False, seen1)
          else if seen_has seen1 m then (True, seen1)
          else (False, seen_set seen1 m now))"

text \<open>A sequence of calls, each with its own clock reading, threading the map.\<close>

fun isDuplicate_calls :: "(int \<times> jstring option) list \<Rightarrow> seen_map \<Rightarrow> seen_map" where
  "isDuplicate_calls [] seen = seen"
| "isDuplicate_calls ((now, m) # cs) seen = isDuplicate_calls cs (snd (isDuplicate now m seen))"

section \<open>JavaScript string operations\<close>

text \<open>
  The white space of \<open>String.prototype.trim\<close> and of the regular expression class
  \<open>\s\<close> (the same set: WhiteSpace and LineTerminator code points).
\<close>

definition is_space :: "nat \<Rightarrow> bool" where
  "is_space c \<longleftrightarrow>
     c \<in> {0x9, 0xA, 0xB, 0xC, 0xD, 0x20, 0xA0, 0x1680, 0x2028, 0x2029, 0x202F, 0x205F,
           0x3000, 0xFEFF}
     \<or> (0x2000 \<le> c \<and> c \<le> 0x200A)"

text \<open>The classes \<open>\d\<close> and \<open>\w\<close> of a regular expression without the \<open>u\<close> flag.\<close>

definition is_digit :: "nat \<Rightarrow> bool" where
  "is_digit c \<longleftrightarrow> 0x30 \<le> c \<and> c \<le> 0x39"

definition is_word :: "nat \<Rightarrow> bool" where
  "is_word c \<longleftrightarrow>
     (0x41 \<le> c \<and> c \<le> 0x5A) \<or> (0x61 \<le> c \<and> c \<le> 0x7A) \<or> is_digit c \<or> c = 0x5F"

text \<open>\<open>s.trim()\<close>\<close>

definition trim :: "jstring \<Rightarrow> jstring" where
  "trim s = rev (dropWhile is_space (rev (dropWhile is_space s)))"

text \<open>
  \<open>s.toLowerCase()\<close>. An ASCII capital becomes its small letter. Two code units beyond
  ASCII have a lower case that contains an ASCII letter: U+0130 (to \<open>i\<close> followed by
  U+0307) and the Kelvin sign U+212A (to \<open>k\<close>). Every other code unit beyond ASCII is
  mapped by JavaScript to code units beyond ASCII again; they are left as they are here,
  since this program only ever compares a lower-cased text with ASCII patterns.
\<close>

definition lower_unit :: "nat \<Rightarrow> jstring" where
  "lower_unit c =
     (if 0x41 \<le> c \<and> c \<le> 0x5A then [c + 0x20]
      else if c = 0x130 then [0x69, 0x307]
      else if c = 0x212A then [0x6B]
      else [c])"

definition toLowerCase :: "jstring \<Rightarrow> jstring" where
  "toLowerCase s = concat (map lower_unit s)"

text \<open>
  The canonical form under which a regular expression with the \<open>i\<close> flag (and no
  \<open>u\<close> flag) compares code units: the upper case, except that a code unit beyond ASCII
  is never folded onto an ASCII one. The patterns of this program hold ASCII letters and
  caseless characters only, so folding the ASCII small letters is all that can make two
  compared code units equal.
\<close>

definition canonicalize :: "nat \<Rightarrow> nat" where
  "canonicalize c = (if 0x61 \<le> c \<and> c \<le> 0x7A then c - 0x20 else c)"

text \<open>\<open>s.startsWith(k)\<close>, and the same under the \<open>i\<close> flag.\<close>

fun startsWith :: "jstring \<Rightarrow> jstring \<Rightarrow> bool" where
  "startsWith s [] = True"
| "startsWith [] (k # ks) = False"
| "startsWith (c # cs) (k # ks) = (c = k \<and> startsWith cs ks)"

fun startsWith_ci :: "jstring \<Rightarrow> jstring \<Rightarrow> bool" where
  "startsWith_ci s [] = True"
| "startsWith_ci [] (k # ks) = False"
| "startsWith_ci (c # cs) (k # ks) = (canonicalize c = canonicalize k \<and> startsWith_ci cs ks)"

text \<open>\<open>s.endsWith(k)\<close>\<close>

definition endsWith :: "jstring \<Rightarrow> jstring \<Rightarrow> bool" where
  "endsWith s k = startsWith (rev s) (rev k)"

text \<open>\<open>s.includes(k)\<close>: the search tries every start position from the left.\<close>

fun includes_str :: "jstring \<Rightarrow> jstring \<Rightarrow> bool" where
  "includes_str [] k = (k = [])"
| "includes_str (c # cs) k = (startsWith (c # cs) k \<or> includes_str cs k)"

text \<open>
  \<open>n.toString(36)\<close> for an integer \<open>n\<close>: digits \<open>0\<close>..\<open>9\<close>, \<open>a\<close>..\<open>z\<close>, most
  significant first, a minus sign before a negative number.
\<close>

definition digit36 :: "nat \<Rightarrow> nat" where
  "digit36 d = (if d < 10 then 0x30 + d else 0x57 + d)"

fun toString36_nat :: "nat \<Rightarrow> jstring" where
  "toString36_nat n =
     (if n < 36 then [digit36 n] else toString36_nat (n div 36) @ [digit36 (n mod 36)])"

declare toString36_nat.simps [simp del]

definition toString36 :: "int \<Rightarrow> jstring" where
  "toString36 n = (if n < 0 then 0x2D # toString36_nat (nat (- n)) else toString36_nat (nat n))"

section \<open>Session keys\<close>

text \<open>
  \<^verbatim>\<open>const sessionOverrides = new Map();   // chatId -> suffix\<close>
  The map is only read with \<open>get\<close> and written with \<open>set\<close>, so it is a partial function.
\<close>

type_synonym overrides = "jstring \<rightharpoonup> jstring"

text \<open>
  \<^verbatim>\<open>
  const suffix = sessionOverrides.get(chatId);
  const sessionKey = suffix ? `larksuite:${chatId}:${suffix}` : `larksuite:${chatId}`;\<close>
  (the same two lines compute \<open>sk\<close> for the status command). A stored empty suffix is
  falsy, as a missing one is.
\<close>

definition baseKey :: "jstring \<Rightarrow> jstring" where
  "baseKey chatId = ascii ''larksuite:'' @ chatId"

definition sessionKey :: "overrides \<Rightarrow> jstring \<Rightarrow> jstring" where
  "sessionKey ov chatId =
     (case ov chatId of
        None \<Rightarrow> baseKey chatId
      | Some suffix \<Rightarrow>
          if suffix \<noteq> [] then ascii ''larksuite:'' @ chatId @ ascii '':'' @ suffix
          else baseKey chatId)"

text \<open>
  \<^verbatim>\<open>
  const newSuffix = Date.now().toString(36);
  sessionOverrides.set(chatId, newSuffix);\<close>
\<close>

definition sessionReset :: "int \<Rightarrow> overrides \<Rightarrow> jstring \<Rightarrow> overrides" where
  "sessionReset now ov chatId = ov(chatId \<mapsto> toString36 now)"

text \<open>
  A history of the session map: resets (each with the clock reading of its \<open>Date.now()\<close>)
  and key resolutions, for any conversations, in the order they happen. \<open>session_run\<close> is
  the map after the history; \<open>session_keys\<close> lists the keys the history produced for one
  conversation.
\<close>

datatype session_op = Reset jstring int | Resolve jstring

fun session_step :: "overrides \<Rightarrow> session_op \<Rightarrow> overrides" where
  "session_step ov (Reset c now) = sessionReset now ov c"
| "session_step ov (Resolve c) = ov"

fun session_run :: "overrides \<Rightarrow> session_op list \<Rightarrow> overrides" where
  "session_run ov [] = ov"
| "session_run ov (x # xs) = session_run (session_step ov x) xs"

fun session_keys :: "overrides \<Rightarrow> session_op list \<Rightarrow> jstring \<Rightarrow> jstring list" where
  "session_keys ov [] c = []"
| "session_keys ov (Reset c' now # xs) c = session_keys (sessionReset now ov c') xs c"
| "session_keys ov (Resolve c' # xs) c =
     (if c' = c then [sessionKey ov c] else []) @ session_keys ov xs c"

fun reset_times :: "session_op list \<Rightarrow> jstring \<Rightarrow> int list" where
  "reset_times [] c = []"
| "reset_times (Reset c' now # xs) c =
     (if c' = c then [now] else []) @ reset_times xs c"
| "reset_times (Resolve c' # xs) c = reset_times xs c"

text \<open>The key of a conversation with a (non-empty) suffix, as the template literal builds it.\<close>

definition fullKey :: "jstring \<Rightarrow> jstring \<Rightarrow> jstring" where
  "fullKey c suffix = ascii ''larksuite:'' @ c @ ascii '':'' @ suffix"

section \<open>Group chat intelligence\<close>

text \<open>
  \<^verbatim>\<open>/[Q?]$/.test(text)\<close>
  where \<open>Q\<close> is the full-width question mark U+FF1F. The search tries every start
  position; the class must match there and \<open>$\<close> (no \<open>m\<close> flag) holds only at the end
  of the text.
\<close>

fun ends_question :: "jstring \<Rightarrow> bool" where
  "ends_question [] = False"
| "ends_question [c] = (c = 0xFF1F \<or> c = 0x3F)"
| "ends_question (c # cs) = ends_question cs"

text \<open>
  \<^verbatim>\<open>/\b(why|how|what|when|where|who|help)\b/.test(t)\<close>
  \<open>\b\<close> holds between two positions exactly one of which is a word character (the text
  ends count as non-word); \<open>prev\<close> tells whether the code unit before the current
  position is a word character.
\<close>

definition question_words :: "jstring list" where
  "question_words =
     [ascii ''why'', ascii ''how'', ascii ''what'', ascii ''when'', ascii ''where'',
      ascii ''who'', ascii ''help'']"

definition word_boundary :: "bool \<Rightarrow> jstring \<Rightarrow> bool" where
  "word_boundary prev s = (prev \<noteq> (case s of [] \<Rightarrow> False | c # _ \<Rightarrow> is_word c))"

definition question_word_here :: "bool \<Rightarrow> jstring \<Rightarrow> bool" where
  "question_word_here prev s \<longleftrightarrow>
     word_boundary prev s
     \<and> list_ex (\<lambda>w. startsWith s w \<and> word_boundary (is_word (last w)) (drop (length w) s))
          question_words"

fun question_word_from :: "bool \<Rightarrow> jstring \<Rightarrow> bool" where
  "question_word_from prev [] = question_word_here prev []"
| "question_word_from prev (c # cs) =
     (question_word_here prev (c # cs) \<or> question_word_from (is_word c) cs)"

definition has_question_word :: "jstring \<Rightarrow> bool" where
  "has_question_word t = question_word_from False t"

text \<open>
  \<^verbatim>\<open>const verbs = [...];  verbs.some(k => text.includes(k))\<close>
  The sixteen Chinese keywords of the source, as their code units, in the source's order.
\<close>

definition verbs :: "jstring list" where
  "verbs =
     [[0x5E2E], [0x9EBB, 0x70E6], [0x8BF7], [0x80FD, 0x5426], [0x53EF, 0x4EE5],
      [0x89E3, 0x91CA], [0x770B, 0x770B], [0x6392, 0x67E5], [0x5206, 0x6790],
      [0x603B, 0x7ED3], [0x5199], [0x6539], [0x4FEE], [0x67E5], [0x5BF9, 0x6BD4],
      [0x7FFB, 0x8BD1]]"

text \<open>
  \<^verbatim>\<open>/^(moltbot|bot|assistant|T1|T2|T3)[\s,:C1C2]/i.test(text)\<close>
  where \<open>T1\<close>, \<open>T2\<close>, \<open>T3\<close> are the three Chinese address terms (U+52A9 U+624B,
  U+667A U+80FD U+4F53, U+5C0F U+673A) and \<open>C1\<close>, \<open>C2\<close> the full-width comma U+FF0C and
  colon U+FF1A. \<open>^\<close> (no \<open>m\<close> flag) holds at the start of the text only. No member of
  the class has a case variant, so the \<open>i\<close> flag does not change the class.
\<close>

definition address_terms :: "jstring list" where
  "address_terms =
     [ascii ''moltbot'', ascii ''bot'', ascii ''assistant'',
      [0x52A9, 0x624B], [0x667A, 0x80FD, 0x4F53], [0x5C0F, 0x673A]]"

definition is_sep :: "nat \<Rightarrow> bool" where
  "is_sep c \<longleftrightarrow> is_space c \<or> c = 0x2C \<or> c = 0x3A \<or> c = 0xFF0C \<or> c = 0xFF1A"

definition address_match :: "jstring \<Rightarrow> bool" where
  "address_match text =
     list_ex (\<lambda>a. startsWith_ci text a
                \<and> (case drop (length a) text of [] \<Rightarrow> False | c # _ \<Rightarrow> is_sep c))
       address_terms"

text \<open>
  \<^verbatim>\<open>
  function shouldRespondInGroup(text, mentions) {
    if (mentions.length > 0) return true;
    const t = text.toLowerCase();
    if (/[Q?]$/.test(text)) return true;
    if (/\b(why|how|what|when|where|who|help)\b/.test(t)) return true;
    const verbs = [...];
    if (verbs.some(k => text.includes(k))) return true;
    if (/^(moltbot|bot|assistant|T1|T2|T3)[\s,:C1C2]/i.test(text)) return true;
    return false;
  }\<close>
\<close>

definition shouldRespondInGroup :: "jstring \<Rightarrow> 'm list \<Rightarrow> bool" where
  "shouldRespondInGroup text mentions =
     (if length mentions > 0 then True
      else let t = toLowerCase text in
        if ends_question text then True
        else if has_question_word t then True
        else if list_ex (\<lambda>k. includes_str text k) verbs then True
        else if address_match text then True
        else False)"

text \<open>The letters that the seven question words are written with.\<close>

definition question_letters :: "nat set" where
  "question_letters = {0x77, 0x68, 0x79, 0x6F, 0x61, 0x74, 0x65, 0x6E, 0x72, 0x6C, 0x70}"

section \<open>JSON values\<close>

text \<open>
  What \<open>JSON.parse\<close> returns. A number is modelled by an integer: the program only tests
  numbers for truth and for strict equality. The pairs of an object are in the order of
  the text; a key written twice keeps its last value.
\<close>

datatype json =
    JNull
  | JBool bool
  | JNum int
  | JStr jstring
  | JArr "json list"
  | JObj "(jstring \<times> json) list"

text \<open>
  A JavaScript value that may also be \<open>undefined\<close> is a \<open>json option\<close>, \<open>None\<close> being
  \<open>undefined\<close>. \<open>get_prop v k\<close> is \<open>v.k\<close> for a value \<open>v\<close> other than \<open>null\<close>: none of the
  property names this program reads is defined on a string, a number, a boolean, an array
  or on \<open>Object.prototype\<close>, so only an object can have them.
\<close>

fun get_prop :: "json \<Rightarrow> jstring \<Rightarrow> json option" where
  "get_prop (JObj kvs) k = map_of (rev kvs) k"
| "get_prop _ k = None"

text \<open>\<open>v?.k\<close>: \<open>undefined\<close> when \<open>v\<close> is \<open>undefined\<close> or \<open>null\<close>.\<close>

fun opt_prop :: "json option \<Rightarrow> jstring \<Rightarrow> json option" where
  "opt_prop None k = None"
| "opt_prop (Some JNull) k = None"
| "opt_prop (Some v) k = get_prop v k"

text \<open>Truthiness: \<open>undefined\<close>, \<open>null\<close>, \<open>false\<close>, \<open>0\<close> and \<open>""\<close> are falsy.\<close>

fun truthy :: "json option \<Rightarrow> bool" where
  "truthy None = False"
| "truthy (Some JNull) = False"
| "truthy (Some (JBool b)) = b"
| "truthy (Some (JNum n)) = (n \<noteq> 0)"
| "truthy (Some (JStr s)) = (s \<noteq> [])"
| "truthy (Some (JArr xs)) = True"
| "truthy (Some (JObj kvs)) = True"

text \<open>\<open>v === "literal"\<close>\<close>

definition is_str :: "json option \<Rightarrow> string \<Rightarrow> bool" where
  "is_str v lit \<longleftrightarrow> v = Some (JStr (ascii lit))"

text \<open>
  \<open>a === b\<close> for two values that come from two different frames: primitive values are
  compared by value, an object or an array is only equal to itself, so never to a value
  of another frame.
\<close>

fun strict_eq :: "json option \<Rightarrow> json option \<Rightarrow> bool" where
  "strict_eq None None = True"
| "strict_eq (Some JNull) (Some JNull) = True"
| "strict_eq (Some (JBool a)) (Some (JBool b)) = (a = b)"
| "strict_eq (Some (JNum a)) (Some (JNum b)) = (a = b)"
| "strict_eq (Some (JStr a)) (Some (JStr b)) = (a = b)"
| "strict_eq _ _ = False"

text \<open>\<open>v || "literal"\<close>\<close>

definition or_default :: "json option \<Rightarrow> string \<Rightarrow> json" where
  "or_default v lit = (case v of Some x \<Rightarrow> if truthy v then x else JStr (ascii lit)
                       | None \<Rightarrow> JStr (ascii lit))"

section \<open>Talking to the gateway\<close>

text \<open>
  \<open>askMoltbot\<close> opens a WebSocket and installs two handlers; the promise it returns is
  settled by them. The model is the state the handlers share and one function per
  handler. \<open>runId\<close> is \<open>None\<close> for the initial \<open>null\<close>; \<open>closes\<close> counts the calls of
  \<open>ws.close()\<close>; \<open>sent\<close> lists the frames given to \<open>ws.send\<close>; \<open>settled\<close> is the outcome
  of the promise, \<open>None\<close> while it is pending.
\<close>

datatype request =
    ConnectReq jstring
  | ChatSendReq jstring jstring jstring

text \<open>
  \<open>ConnectReq token\<close> is the \<open>connect\<close> request (its other fields are constants);
  \<open>ChatSendReq message sessionKey idempotencyKey\<close> is the \<open>chat.send\<close> request, with
  \<open>deliver: false\<close>.

  A rejection carries what the \<open>Error\<close> was built from: the JSON value given to
  \<open>new Error\<close> (its string form is the message), or the error of the transport.
\<close>

datatype failure = GatewayError json | TransportError jstring

datatype outcome = Resolved jstring json | Rejected failure

record exchange =
  runId :: "json option"
  buf :: jstring
  mediaUrls :: json
  sent :: "request list"
  closes :: nat
  settled :: "outcome option"

text \<open>The arguments of \<open>askMoltbot\<close>; a \<open>null\<close> \<open>mediaPath\<close> is \<open>None\<close>.\<close>

record ask_params =
  ask_text :: jstring
  ask_sessionKey :: jstring
  ask_mediaPath :: "jstring option"

text \<open>
  What the handlers read from outside: the gateway token, the \<open>uuid()\<close> drawn for the
  idempotency key, and the result of copying the image into the workspace:
  \<open>Some (workspacePath, size)\<close>, or \<open>None\<close> when a file operation threw.
\<close>

record ask_env =
  GATEWAY_TOKEN :: jstring
  idempotencyKey :: jstring
  copy_result :: "(jstring \<times> nat) option"

definition exchange_init :: exchange where
  "exchange_init =
     \<lparr>runId = None, buf = [], mediaUrls = JArr [], sent = [], closes = 0, settled = None\<rparr>"

text \<open>\<^verbatim>\<open>const close = () => { try { ws.close(); } catch {} };\<close>\<close>

definition close :: "exchange \<Rightarrow> exchange" where
  "close s = s\<lparr>closes := closes s + 1\<rparr>"

text \<open>\<open>resolve\<close> and \<open>reject\<close>: only the first call settles the promise.\<close>

definition settle :: "outcome \<Rightarrow> exchange \<Rightarrow> exchange" where
  "settle out s = (case settled s of None \<Rightarrow> s\<lparr>settled := Some out\<rparr> | Some _ \<Rightarrow> s)"

definition send :: "request \<Rightarrow> exchange \<Rightarrow> exchange" where
  "send r s = s\<lparr>sent := sent s @ [r]\<rparr>"

text \<open>\<^verbatim>\<open>ws.on("error", (e) => { close(); reject(e); });\<close>\<close>

definition on_error :: "jstring \<Rightarrow> exchange \<Rightarrow> exchange" where
  "on_error e s = settle (Rejected (TransportError e)) (close s)"

text \<open>
  The message of the \<open>chat.send\<close> request:
  \<^verbatim>\<open>
  message: text || "",
  if (mediaPath) {
    try { ... copy, stat ...
      if (size > 0) params.message = (params.message || "") + NOTE + workspacePath + "]";
      if (!params.message) params.message = "(image)";
    } catch (e) { ... }
  }\<close>
  \<open>image_note\<close> is the text of the note up to the path (two line feeds, an opening
  bracket, a Chinese sentence that names the image tool, a colon and a space).
\<close>

definition image_note :: jstring where
  "image_note =
     [0xA, 0xA, 0x5B, 0x7528, 0x6236, 0x50B3, 0x9001, 0x4E86, 0x4E00, 0x5F35, 0x5716, 0x7247,
      0xFF0C, 0x8ACB, 0x7528, 0x20, 0x69, 0x6D, 0x61, 0x67, 0x65, 0x20, 0x74, 0x6F, 0x6F,
      0x6C, 0x20, 0x8B80, 0x53D6, 0x3A, 0x20]"

definition chat_message :: "ask_params \<Rightarrow> ask_env \<Rightarrow> jstring" where
  "chat_message p env =
     (let message = ask_text p in
      case ask_mediaPath p of
        None \<Rightarrow> message
      | Some mp \<Rightarrow>
          if mp = [] then message
          else (case copy_result env of
                  None \<Rightarrow> message
                | Some (workspacePath, sz) \<Rightarrow>
                    let m1 = (if sz > 0 then message @ image_note @ workspacePath @ ascii '']''
                              else message)
                    in if m1 = [] then ascii ''(image)'' else m1))"

text \<open>
  \<open>dot v k\<close> reads the property with the literal name \<open>k\<close>: \<open>v?.k\<close>, and also \<open>v.k\<close>
  where the source has made sure before that \<open>v\<close> is neither \<open>null\<close> nor \<open>undefined\<close>.
\<close>

definition dot :: "json option \<Rightarrow> string \<Rightarrow> json option" where
  "dot v k = opt_prop v (ascii k)"

datatype js_error = TypeError

text \<open>
  The handler of a frame, \<^verbatim>\<open>ws.on("message", (raw) => { ... })\<close>. Its argument is what
  \<open>JSON.parse(raw.toString())\<close> gives, \<open>None\<close> when it throws (the handler then returns).
  A frame that is the JSON text \<open>null\<close> makes \<open>msg.type\<close> throw a TypeError, which leaves
  the handler; every other property read of the handler is on a value known not to be
  \<open>null\<close> or goes through \<open>?.\<close>. The branches are in the source's order:
  \<^verbatim>\<open>
  if (msg.type === "event" && msg.event === "connect.challenge") { ws.send(connect); return; }
  if (msg.type === "res" && msg.id === "connect") {
    if (!msg.ok) { close(); reject(new Error(msg.error?.message || "connect failed")); return; }
    ... ws.send(chat.send); return;
  }
  if (msg.type === "res" && msg.id === "chat-send") {
    if (!msg.ok) { close(); reject(new Error(msg.error?.message || "chat.send failed")); return; }
    if (msg.payload?.runId) runId = msg.payload.runId;
    return;
  }
  if (msg.type === "event" && (msg.event === "agent" || msg.event === "chat")) {
    const p = msg.payload;
    if (!p || (runId && p.runId !== runId)) return;
    if (p.stream === "assistant") {
      const d = p.data || {};
      if (typeof d.text === "string") buf = d.text;
      else if (typeof d.delta === "string") buf += d.delta;
      if (d.mediaUrls) mediaUrls = d.mediaUrls;
      return;
    }
    if (p.stream === "lifecycle") {
      if (p.data?.phase === "end") { close(); resolve({ text: buf.trim(), mediaUrls }); }
      if (p.data?.phase === "error") { close(); reject(new Error(p.data?.message || "agent error")); }
    }
  }\<close>
\<close>

text \<open>\<open>typeof v === "string"\<close>, giving the string.\<close>

fun as_string :: "json option \<Rightarrow> jstring option" where
  "as_string (Some (JStr t)) = Some t"
| "as_string _ = None"

definition on_assistant :: "json option \<Rightarrow> exchange \<Rightarrow> exchange" where
  "on_assistant p s =
     (let d = (if truthy (dot p ''data'') then dot p ''data'' else Some (JObj []));
          s1 = (case as_string (dot d ''text'') of
                  Some t \<Rightarrow> s\<lparr>buf := t\<rparr>
                | None \<Rightarrow> (case as_string (dot d ''delta'') of
                             Some dl \<Rightarrow> s\<lparr>buf := buf s @ dl\<rparr>
                           | None \<Rightarrow> s))
      in case dot d ''mediaUrls'' of
           Some m \<Rightarrow> if truthy (Some m) then s1\<lparr>mediaUrls := m\<rparr> else s1
         | None \<Rightarrow> s1)"

definition on_lifecycle :: "json option \<Rightarrow> exchange \<Rightarrow> exchange" where
  "on_lifecycle p s =
     (let phase = dot (dot p ''data'') ''phase'';
          s1 = (if is_str phase ''end''
                then settle (Resolved (trim (buf s)) (mediaUrls s)) (close s) else s)
      in if is_str phase ''error''
         then settle (Rejected (GatewayError
                 (or_default (dot (dot p ''data'') ''message'') ''agent error''))) (close s1)
         else s1)"

definition on_message :: "ask_params \<Rightarrow> ask_env \<Rightarrow> json option \<Rightarrow> exchange \<Rightarrow> js_error + exchange" where
  "on_message prm env raw s =
     (case raw of
        None \<Rightarrow> Inr s
      | Some JNull \<Rightarrow> Inl TypeError
      | Some m \<Rightarrow>
          (let msg = Some m in
           if is_str (dot msg ''type'') ''event'' \<and> is_str (dot msg ''event'') ''connect.challenge''
           then Inr (send (ConnectReq (GATEWAY_TOKEN env)) s)
           else if is_str (dot msg ''type'') ''res'' \<and> is_str (dot msg ''id'') ''connect''
           then (if \<not> truthy (dot msg ''ok'')
                 then Inr (settle (Rejected (GatewayError
                        (or_default (dot (dot msg ''error'') ''message'') ''connect failed'')))
                        (close s))
                 else Inr (send (ChatSendReq (chat_message prm env) (ask_sessionKey prm)
                                   (idempotencyKey env)) s))
           else if is_str (dot msg ''type'') ''res'' \<and> is_str (dot msg ''id'') ''chat-send''
           then (if \<not> truthy (dot msg ''ok'')
                 then Inr (settle (Rejected (GatewayError
                        (or_default (dot (dot msg ''error'') ''message'') ''chat.send failed'')))
                        (close s))
                 else if truthy (dot (dot msg ''payload'') ''runId'')
                 then Inr (s\<lparr>runId := dot (dot msg ''payload'') ''runId''\<rparr>)
                 else Inr s)
           else if is_str (dot msg ''type'') ''event''
                   \<and> (is_str (dot msg ''event'') ''agent'' \<or> is_str (dot msg ''event'') ''chat'')
           then (let p = dot msg ''payload'' in
                 if \<not> truthy p \<or> (truthy (runId s) \<and> \<not> strict_eq (dot p ''runId'') (runId s))
                 then Inr s
                 else if is_str (dot p ''stream'') ''assistant'' then Inr (on_assistant p s)
                 else if is_str (dot p ''stream'') ''lifecycle'' then Inr (on_lifecycle p s)
                 else Inr s)
           else Inr s))"

text \<open>
  What the socket delivers: a frame (with the result of parsing it) or an error. A run
  feeds the events in order to the handlers and stops if a handler throws.
\<close>

datatype ws_event = WsMessage "json option" | WsError jstring

definition ws_step :: "ask_params \<Rightarrow> ask_env \<Rightarrow> exchange \<Rightarrow> ws_event \<Rightarrow> js_error + exchange" where
  "ws_step prm env s ev =
     (case ev of WsMessage raw \<Rightarrow> on_message prm env raw s | WsError e \<Rightarrow> Inr (on_error e s))"

fun ws_run :: "ask_params \<Rightarrow> ask_env \<Rightarrow> exchange \<Rightarrow> ws_event list \<Rightarrow> js_error + exchange" where
  "ws_run prm env s [] = Inr s"
| "ws_run prm env s (ev # evs) =
     (case ws_step prm env s ev of Inl err \<Rightarrow> Inl err | Inr s' \<Rightarrow> ws_run prm env s' evs)"

text \<open>The frames of the gateway protocol that the properties below feed to the handlers.\<close>

definition challenge_frame :: json where
  "challenge_frame =
     JObj [(ascii ''type'', JStr (ascii ''event'')),
           (ascii ''event'', JStr (ascii ''connect.challenge''))]"

definition res_frame :: "string \<Rightarrow> bool \<Rightarrow> (jstring \<times> json) list \<Rightarrow> json" where
  "res_frame rid ok rest =
     JObj ([(ascii ''type'', JStr (ascii ''res'')), (ascii ''id'', JStr (ascii rid)),
            (ascii ''ok'', JBool ok)] @ rest)"

definition stream_frame :: "string \<Rightarrow> json \<Rightarrow> string \<Rightarrow> json \<Rightarrow> json" where
  "stream_frame ev rid strm dat =
     JObj [(ascii ''type'', JStr (ascii ''event'')), (ascii ''event'', JStr (ascii ev)),
           (ascii ''payload'',
              JObj [(ascii ''runId'', rid), (ascii ''stream'', JStr (ascii strm)),
                    (ascii ''data'', dat)])]"

text \<open>
  Two predicates for reasoning about the socket: what one handler call may do to the close
  count and to the promise, and the invariant that the promise is pending exactly as long
  as \<open>ws.close()\<close> has not been called.
\<close>

definition close_step :: "exchange \<Rightarrow> exchange \<Rightarrow> bool" where
  "close_step s s' \<longleftrightarrow>
     (closes s' = closes s \<and> settled s' = settled s)
     \<or> (closes s' = closes s + 1 \<and> settled s' \<noteq> None
         \<and> (settled s \<noteq> None \<longrightarrow> settled s' = settled s))"

definition closed_iff_settled :: "exchange \<Rightarrow> bool" where
  "closed_iff_settled s \<longleftrightarrow> (settled s = None \<longleftrightarrow> closes s = 0)"

text \<open>
  The condition under which the handler looks at the stream of a frame: an event of the
  agent or chat stream with a truthy payload whose run id is the recorded one, when one
  is recorded (\<^verbatim>\<open>if (!p || (runId && p.runId !== runId)) return;\<close>).
\<close>

definition accepts :: "exchange \<Rightarrow> json \<Rightarrow> bool" where
  "accepts s m \<longleftrightarrow>
     is_str (dot (Some m) ''type'') ''event''
     \<and> (is_str (dot (Some m) ''event'') ''agent'' \<or> is_str (dot (Some m) ''event'') ''chat'')
     \<and> truthy (dot (Some m) ''payload'')
     \<and> (truthy (runId s) \<longrightarrow> strict_eq (dot (dot (Some m) ''payload'') ''runId'') (runId s))"

section \<open>Message handler\<close>

text \<open>
  \<^verbatim>\<open>text.replace(/@_user_\d+\s*/g, "")\<close>
  \<open>match_mention s\<close> tells whether a token starts at the head of \<open>s\<close> and gives what
  follows the token and the white space after it; \<open>strip_mentions\<close> is the global
  replacement: after a match the search goes on behind it, elsewhere the code unit is
  kept.
\<close>

definition match_mention :: "jstring \<Rightarrow> jstring option" where
  "match_mention s =
     (if startsWith s (ascii ''@_user_'')
      then (let r = drop 7 s in
            if takeWhile is_digit r = [] then None
            else Some (dropWhile is_space (dropWhile is_digit r)))
      else None)"

function strip_mentions :: "jstring \<Rightarrow> jstring" where
  "strip_mentions [] = []"
| "strip_mentions (c # cs) =
     (case match_mention (c # cs) of
        Some rest \<Rightarrow> strip_mentions rest
      | None \<Rightarrow> c # strip_mentions cs)"
  by pat_completeness auto
termination
proof (relation "measure length")
  show "wf (measure length)" by simp
next
  fix c cs rest
  assume "match_mention (c # cs) = Some rest"
  then have "rest = dropWhile is_space (dropWhile is_digit (drop 7 (c # cs)))"
    by (auto simp: match_mention_def Let_def split: if_splits)
  moreover have "length (dropWhile is_space (dropWhile is_digit (drop 7 (c # cs))))
      \<le> length (drop 7 (c # cs))"
    by (meson length_dropWhile_le order_trans)
  ultimately have "length rest < length (c # cs)" by simp
  then show "(rest, c # cs) \<in> measure length" by simp
next
  fix c cs
  show "(cs, c # cs) \<in> measure length" by simp
qed

text \<open>
  The fields of \<open>data.message\<close> that the handler reads. A missing field is \<open>None\<close>.
  The content is a JSON text in the event; the model holds what \<open>JSON.parse\<close> makes of it.
\<close>

datatype content = NoContent | Unparseable | Parsed json

record message =
  msg_chat_id :: "jstring option"
  msg_message_id :: "jstring option"
  msg_message_type :: "jstring option"
  msg_content :: content
  msg_chat_type :: "jstring option"
  msg_mentions :: "json option"

text \<open>
  What a call of the Larksuite client or of the gateway is recorded as, in the order the
  handler makes them: \<open>im.message.create\<close> with a text, \<open>im.message.delete\<close>,
  \<open>im.message.patch\<close>, \<open>askMoltbot({ text, sessionKey, mediaPath })\<close>, and
  \<open>sendImageMessage(chatId, imageKey)\<close>.
\<close>

datatype action =
    SendText jstring jstring
  | DeleteMessage jstring
  | PatchMessage jstring jstring
  | AskGateway jstring jstring "jstring option"
  | SendImage jstring jstring

text \<open>The reply of \<open>askMoltbot\<close>: \<open>{ text, mediaUrls }\<close>.\<close>

record reply =
  reply_text :: jstring
  reply_mediaUrls :: json

text \<open>
  The placeholder timer, as the handler finds it when the gateway call has finished and
  \<open>done\<close> is set:
  \<^verbatim>\<open>
  let placeholderId = "";
  let done = false;
  const timer = THINKING_THRESHOLD_MS > 0
    ? setTimeout(async () => {
        if (done) return;
        try {
          const res = await client.im.message.create(... "Thinking..." ...);
          placeholderId = res?.data?.message_id || "";
        } catch {}
      }, THINKING_THRESHOLD_MS)
    : null;
  ...
  } finally { done = true; if (timer) clearTimeout(timer); }\<close>
  Either the timer has not fired (it is cleared then), or it has fired and the \<open>create\<close>
  of the placeholder is still awaited, or the \<open>create\<close> has returned (with the message id
  of the answer, the empty string if the answer has none), or it has thrown. In the second
  case the placeholder message is on its way to the conversation while \<open>placeholderId\<close>
  is still empty; the assignment that follows is read by nobody.
\<close>

datatype placeholder_state =
    TimerPending
  | CreateInFlight
  | CreateReturned jstring
  | CreateThrew

text \<open>
  What the handler reads from outside during one call:
  \<^item> \<open>now_dedup\<close>, \<open>now_reset\<close>: the readings of \<open>Date.now()\<close> in \<open>isDuplicate\<close> and at a reset;
  \<^item> \<open>downloadImage\<close>: the local path \<open>downloadImage(messageId, imageKey)\<close> returns, \<open>None\<close>
    for \<open>null\<close> (it catches its own errors);
  \<^item> \<open>extractPost\<close>: the text and the media path that the branch for rich-text posts
    leaves in \<open>text\<close> and \<open>mediaPath\<close> for a parsed content (the walk over the post is not
    modelled);
  \<^item> \<open>THINKING_THRESHOLD_MS\<close>, and \<open>placeholder\<close>: how far the placeholder timer has got
    when the gateway call finishes (see \<open>placeholder_state\<close>);
  \<^item> \<open>gateway_result\<close>: how \<open>askMoltbot\<close> ends, with the text \<open>e?.message || String(e)\<close> of
    a rejection or with the reply;
  \<^item> \<open>create_fails\<close>, \<open>patch_fails\<close>: whether \<open>im.message.create\<close> for the reply text and
    \<open>im.message.patch\<close> throw;
  \<^item> \<open>upload_result\<close>: the image key that downloading a media url and uploading the file gives,
    \<open>None\<close> when one of the two fails.
\<close>

record handler_env =
  now_dedup :: int
  now_reset :: int
  downloadImage :: "jstring option \<Rightarrow> json \<Rightarrow> jstring option"
  extractPost :: "json \<Rightarrow> jstring \<times> jstring option"
  THINKING_THRESHOLD_MS :: int
  placeholder :: placeholder_state
  gateway_result :: "jstring + reply"
  create_fails :: bool
  patch_fails :: bool
  upload_result :: "json \<Rightarrow> jstring option"

text \<open>The two maps of the process, and what a call of the handler leaves behind.\<close>

record bridge_state =
  bs_seen :: seen_map
  bs_sessionOverrides :: overrides

record handled =
  state_after :: bridge_state
  calls :: "action list"

text \<open>The literal texts of the handler, as code units.\<close>

definition image_received_text :: jstring where
  "image_received_text = [0x5B, 0x6536, 0x5230, 0x5716, 0x7247, 0x5D]"

definition reset_confirmation :: jstring where
  "reset_confirmation =
     [0x2705, 0x20, 0x53, 0x65, 0x73, 0x73, 0x69, 0x6F, 0x6E, 0x20, 0x5DF2, 0x91CD, 0x7F6E,
      0xFF0C, 0x958B, 0x59CB, 0x65B0, 0x5C0D, 0x8A71, 0x3002]"

text \<open>
  \<^verbatim>\<open>`<chart> Session: ${sk}\nChat: ${chatId}\nType: ${message?.chat_type || "unknown"}`\<close>
  where \<open><chart>\<close> is U+1F4CA, two code units.
\<close>

definition status_text :: "jstring \<Rightarrow> jstring \<Rightarrow> jstring option \<Rightarrow> jstring" where
  "status_text sk chatId chatType =
     [0xD83D, 0xDCCA] @ ascii '' Session: '' @ sk @ [0xA] @ ascii ''Chat: '' @ chatId @ [0xA]
     @ ascii ''Type: ''
     @ (case chatType of None \<Rightarrow> ascii ''unknown''
        | Some t \<Rightarrow> if t = [] then ascii ''unknown'' else t)"

text \<open>\<open>!mediaPath\<close> is false for a non-empty path only.\<close>

definition has_media :: "jstring option \<Rightarrow> bool" where
  "has_media mediaPath = (case mediaPath of None \<Rightarrow> False | Some p \<Rightarrow> p \<noteq> [])"

text \<open>
  The first part of the handler: the text and the media path for the type of the message.
  \<^verbatim>\<open>
  if (messageType === "text" && message?.content) {
    try { text = (JSON.parse(message.content)?.text || "").trim(); } catch {}
  } else if (messageType === "image" && message?.content) {
    try {
      const content = JSON.parse(message.content);
      const imageKey = content?.image_key;
      if (imageKey) { mediaPath = await downloadImage(messageId, imageKey); text = "[...]"; }
    } catch {}
  } else if (messageType === "post" && message?.content) { try { ... } catch {} }
  else { return; }\<close>
  A \<open>text\<close> property that is truthy and not a string makes \<open>.trim()\<close> throw, which
  leaves \<open>text\<close> empty, as a falsy one does.
\<close>

datatype extraction = Skip | Extracted jstring "jstring option"

definition extract_content :: "handler_env \<Rightarrow> message \<Rightarrow> extraction" where
  "extract_content env m =
     (if msg_message_type m = Some (ascii ''text'') \<and> msg_content m \<noteq> NoContent
      then Extracted
             (case msg_content m of
                Parsed v \<Rightarrow> (case as_string (dot (Some v) ''text'') of
                               Some t \<Rightarrow> trim t | None \<Rightarrow> [])
              | _ \<Rightarrow> [])
             None
      else if msg_message_type m = Some (ascii ''image'') \<and> msg_content m \<noteq> NoContent
      then (case msg_content m of
              Parsed v \<Rightarrow>
                (case dot (Some v) ''image_key'' of
                   Some imageKey \<Rightarrow>
                     if truthy (Some imageKey)
                     then Extracted image_received_text
                            (downloadImage env (msg_message_id m) imageKey)
                     else Extracted [] None
                 | None \<Rightarrow> Extracted [] None)
            | _ \<Rightarrow> Extracted [] None)
      else if msg_message_type m = Some (ascii ''post'') \<and> msg_content m \<noteq> NoContent
      then (case msg_content m of
              Parsed v \<Rightarrow> Extracted (fst (extractPost env v)) (snd (extractPost env v))
            | _ \<Rightarrow> Extracted [] None)
      else Skip)"

text \<open>
  \<^verbatim>\<open>
  if (message?.chat_type === "group") {
    const mentions = Array.isArray(message?.mentions) ? message.mentions : [];
    text = text.replace(/@_user_\d+\s*/g, "").trim();
    if (!text && !mediaPath) return;
    if (!mediaPath && !shouldRespondInGroup(text, mentions)) return;
  }\<close>
  \<open>None\<close> is the \<open>return\<close>; otherwise the result is the text the handler goes on with.
\<close>

definition group_filter :: "message \<Rightarrow> jstring \<Rightarrow> jstring option \<Rightarrow> jstring option" where
  "group_filter m text0 mediaPath =
     (if msg_chat_type m = Some (ascii ''group'')
      then (let mentions = (case msg_mentions m of Some (JArr xs) \<Rightarrow> xs | _ \<Rightarrow> []);
                text1 = trim (strip_mentions text0)
            in if text1 = [] \<and> \<not> has_media mediaPath then None
               else if \<not> has_media mediaPath \<and> \<not> shouldRespondInGroup text1 mentions then None
               else Some text1)
      else Some text0)"

text \<open>
  The items of \<^verbatim>\<open>for (const url of reply.mediaUrls)\<close>, which runs when
  \<open>reply.mediaUrls\<close> is truthy and its \<open>length\<close> is positive: the elements of an array,
  the code points of a string. Any other value either has no positive \<open>length\<close> or is not
  iterable (the loop then throws into the handler's outer \<open>catch\<close>): no item is handled.
\<close>

fun code_points :: "jstring \<Rightarrow> jstring list" where
  "code_points [] = []"
| "code_points [c] = [[c]]"
| "code_points (c # d # cs) =
     (if 0xD800 \<le> c \<and> c \<le> 0xDBFF \<and> 0xDC00 \<le> d \<and> d \<le> 0xDFFF
      then [c, d] # code_points cs
      else [c] # code_points (d # cs))"

definition media_items :: "json \<Rightarrow> json list" where
  "media_items v = (case v of JArr xs \<Rightarrow> xs | JStr s \<Rightarrow> map JStr (code_points s) | _ \<Rightarrow> [])"

text \<open>
  The last part of the handler, from \<^verbatim>\<open>const trimmed = (reply.text || "").trim();\<close> on:
  \<^verbatim>\<open>
  if (!trimmed || trimmed === "NO_REPLY" || trimmed.endsWith("NO_REPLY")) {
    if (placeholderId) { try { await client.im.message.delete(...); } catch {} }
    return;
  }
  if (placeholderId) {
    try { await client.im.message.patch(...trimmed); }
    catch { await client.im.message.create(...trimmed); }
  } else { await client.im.message.create(...trimmed); }
  if (reply.mediaUrls && reply.mediaUrls.length > 0) {
    for (const url of reply.mediaUrls) {
      try { ... download, upload ... if (imageKey) await sendImageMessage(chatId, imageKey); }
      catch (e) { ... }
    }
  }\<close>
  A \<open>create\<close> that throws leaves the handler through its outer \<open>catch\<close>, so no image
  follows it.
\<close>

definition image_calls :: "handler_env \<Rightarrow> jstring \<Rightarrow> json \<Rightarrow> action list" where
  "image_calls env chatId urls =
     concat (map (\<lambda>url. case upload_result env url of
                           None \<Rightarrow> []
                         | Some imageKey \<Rightarrow> if imageKey \<noteq> [] then [SendImage chatId imageKey] else [])
                 (media_items urls))"

definition deliver :: "handler_env \<Rightarrow> jstring \<Rightarrow> jstring \<Rightarrow> reply \<Rightarrow> action list" where
  "deliver env chatId placeholderId r =
     (let trimmed = trim (reply_text r) in
      if trimmed = [] \<or> trimmed = ascii ''NO_REPLY'' \<or> endsWith trimmed (ascii ''NO_REPLY'')
      then (if placeholderId \<noteq> [] then [DeleteMessage placeholderId] else [])
      else if placeholderId \<noteq> []
      then (if patch_fails env
            then PatchMessage placeholderId trimmed # SendText chatId trimmed
                 # (if create_fails env then [] else image_calls env chatId (reply_mediaUrls r))
            else PatchMessage placeholderId trimmed # image_calls env chatId (reply_mediaUrls r))
      else SendText chatId trimmed
           # (if create_fails env then [] else image_calls env chatId (reply_mediaUrls r)))"

text \<open>
  The text of the placeholder ("Thinking" and U+2026), the state of the timer (it is only
  set when the threshold is positive), the call the timer's callback has made, and the
  value of \<open>placeholderId\<close> that the last part of the handler reads.
\<close>

definition thinking_text :: jstring where
  "thinking_text = [0x54, 0x68, 0x69, 0x6E, 0x6B, 0x69, 0x6E, 0x67, 0x2026]"

definition timer_state :: "handler_env \<Rightarrow> placeholder_state" where
  "timer_state env = (if THINKING_THRESHOLD_MS env > 0 then placeholder env else TimerPending)"

definition placeholder_calls :: "jstring \<Rightarrow> placeholder_state \<Rightarrow> action list" where
  "placeholder_calls chatId ps =
     (case ps of TimerPending \<Rightarrow> [] | _ \<Rightarrow> [SendText chatId thinking_text])"

definition placeholderId_of :: "placeholder_state \<Rightarrow> jstring" where
  "placeholderId_of ps = (case ps of CreateReturned pid \<Rightarrow> pid | _ \<Rightarrow> [])"

text \<open>
  The middle part: the two commands, then the gateway call, during which the timer may
  fire, then the last part with the \<open>placeholderId\<close> of that moment.
  \<^verbatim>\<open>
  if (text.trim().toLowerCase() === "/reset") {
    const newSuffix = Date.now().toString(36);
    sessionOverrides.set(chatId, newSuffix);
    await client.im.message.create(... confirmation ...);
    return;
  }
  if (text.trim().toLowerCase() === "/status") { ... create(... status ...); return; }
  const suffix = sessionOverrides.get(chatId);
  const sessionKey = suffix ? `larksuite:${chatId}:${suffix}` : `larksuite:${chatId}`;
  ...
  try { reply = await askMoltbot({ text, sessionKey, mediaPath }); }
  catch (e) { reply = { text: `(System error) ${e?.message || String(e)}`, mediaUrls: [] }; }\<close>
\<close>

definition commands ::
  "handler_env \<Rightarrow> message \<Rightarrow> jstring \<Rightarrow> jstring \<Rightarrow> jstring option \<Rightarrow> bridge_state \<Rightarrow> handled" where
  "commands env m chatId text1 mediaPath st =
     (if toLowerCase (trim text1) = ascii ''/reset''
      then \<lparr>state_after = st\<lparr>bs_sessionOverrides :=
                               sessionReset (now_reset env) (bs_sessionOverrides st) chatId\<rparr>,
            calls = [SendText chatId reset_confirmation]\<rparr>
      else if toLowerCase (trim text1) = ascii ''/status''
      then \<lparr>state_after = st,
            calls = [SendText chatId
                       (status_text (sessionKey (bs_sessionOverrides st) chatId) chatId
                          (msg_chat_type m))]\<rparr>
      else (let sk = sessionKey (bs_sessionOverrides st) chatId;
                ps = timer_state env;
                r = (case gateway_result env of
                       Inr rep \<Rightarrow> rep
                     | Inl e \<Rightarrow> \<lparr>reply_text = ascii ''(System error) '' @ e,
                                 reply_mediaUrls = JArr []\<rparr>)
            in \<lparr>state_after = st,
                calls = AskGateway text1 sk mediaPath
                        # placeholder_calls chatId ps
                        @ deliver env chatId (placeholderId_of ps) r\<rparr>))"

text \<open>
  The handler. \<open>data\<close> is \<open>body.event\<close>; \<open>None\<close> stands for an event without a
  \<open>message\<close>.
  \<^verbatim>\<open>
  const { message } = data;
  const chatId = message?.chat_id;
  const messageId = message?.message_id;
  if (!chatId) return;
  if (isDuplicate(messageId)) { ...; return; }
  ... text and mediaPath for the message type ...
  if (!text && !mediaPath) return;
  ... group filter, commands, gateway call, delivery ...\<close>
\<close>

definition handleMessage :: "handler_env \<Rightarrow> message option \<Rightarrow> bridge_state \<Rightarrow> handled" where
  "handleMessage env data st =
     (case data of
        None \<Rightarrow> \<lparr>state_after = st, calls = []\<rparr>
      | Some m \<Rightarrow>
          (case msg_chat_id m of
             None \<Rightarrow> \<lparr>state_after = st, calls = []\<rparr>
           | Some chatId \<Rightarrow>
               if chatId = [] then \<lparr>state_after = st, calls = []\<rparr>
               else (let d = isDuplicate (now_dedup env) (msg_message_id m) (bs_seen st);
                         st1 = st\<lparr>bs_seen := snd d\<rparr>
                     in if fst d then \<lparr>state_after = st1, calls = []\<rparr>
                        else (case extract_content env m of
                                Skip \<Rightarrow> \<lparr>state_after = st1, calls = []\<rparr>
                              | Extracted text0 mediaPath \<Rightarrow>
                                  if text0 = [] \<and> \<not> has_media mediaPath
                                  then \<lparr>state_after = st1, calls = []\<rparr>
                                  else (case group_filter m text0 mediaPath of
                                          None \<Rightarrow> \<lparr>state_after = st1, calls = []\<rparr>
                                        | Some text1 \<Rightarrow>
                                            commands env m chatId text1 mediaPath st1)))))"

text \<open>
  An environment for concrete runs of the handler: no image can be fetched or uploaded,
  the timer has not fired, the gateway answers "ok", no call fails.
\<close>

definition example_env :: handler_env where
  "example_env =
     \<lparr>now_dedup = 1000, now_reset = 2000, downloadImage = (\<lambda>_ _. None),
      extractPost = (\<lambda>_. ([], None)), THINKING_THRESHOLD_MS = 2500, placeholder = TimerPending,
      gateway_result = Inr \<lparr>reply_text = ascii ''ok'', reply_mediaUrls = JArr []\<rparr>,
      create_fails = False, patch_fails = False, upload_result = (\<lambda>_. None)\<rparr>"

text \<open>A text message as the handler receives it, with the text already parsed out.\<close>

definition text_message ::
  "jstring \<Rightarrow> jstring option \<Rightarrow> string \<Rightarrow> jstring \<Rightarrow> json option \<Rightarrow> message" where
  "text_message chatId messageId chatType body ment =
     \<lparr>msg_chat_id = Some chatId, msg_message_id = messageId,
      msg_message_type = Some (ascii ''text''),
      msg_content = Parsed (JObj [(ascii ''text'', JStr body)]),
      msg_chat_type = Some (ascii chatType), msg_mentions = ment\<rparr>"

section \<open>HTTP webhook server\<close>

text \<open>
  The request handler of \<open>http.createServer\<close>. A request is its method, its url and what
  \<open>JSON.parse\<close> makes of its body (\<open>None\<close> when it throws). The answer is the status code,
  what is written as the body, and the event given to \<open>handleMessage\<close> through
  \<open>setImmediate\<close>, if any.
\<close>

record config =
  ENCRYPT_KEY :: jstring
  VERIFICATION_TOKEN :: jstring

record http_request =
  req_method :: jstring
  req_url :: jstring
  req_body :: "json option"

datatype response_body =
    HealthOk
  | MethodNotAllowed
  | InvalidJson
  | DecryptionFailed
  | Challenge "json option"
  | InvalidToken
  | Ok

record http_response =
  status :: nat
  body_written :: response_body
  dispatched :: "json option"

text \<open>
  \<^verbatim>\<open>
  if (body?.encrypt && ENCRYPT_KEY) {
    try { const decrypted = decryptAES(ENCRYPT_KEY, body.encrypt); body = JSON.parse(decrypted); }
    catch (e) { res.writeHead(400, ...); res.end("Decryption failed"); return; }
  }\<close>
  \<open>decrypt key data\<close> stands for \<open>JSON.parse(decryptAES(key, data))\<close>, \<open>None\<close> when either
  throws. The result is the body the rest of the handler works on, \<open>None\<close> for the
  \<open>return\<close>.
\<close>

definition effective_body :: "config \<Rightarrow> (jstring \<Rightarrow> json \<Rightarrow> json option) \<Rightarrow> json \<Rightarrow> json option" where
  "effective_body cfg decrypt body0 =
     (case dot (Some body0) ''encrypt'' of
        Some enc \<Rightarrow> if truthy (Some enc) \<and> ENCRYPT_KEY cfg \<noteq> [] then decrypt (ENCRYPT_KEY cfg) enc
                    else Some body0
      | None \<Rightarrow> Some body0)"

text \<open>
  \<^verbatim>\<open>
  if (body?.type === "url_verification") { ... res.end(JSON.stringify({ challenge: body.challenge })); return; }
  if (VERIFICATION_TOKEN && body?.token && body.token !== VERIFICATION_TOKEN) {
    res.writeHead(401, ...); res.end("Invalid token"); return;
  }
  if (body?.event) {
    const eventType = body?.header?.event_type || body?.event?.type;
    if (eventType === "im.message.receive_v1") { setImmediate(() => handleMessage(body.event)); }
  }
  res.writeHead(200, ...); res.end(JSON.stringify({ ok: true }));\<close>
\<close>

definition respond :: "config \<Rightarrow> json \<Rightarrow> http_response" where
  "respond cfg b =
     (let body = Some b in
      if is_str (dot body ''type'') ''url_verification''
      then \<lparr>status = 200, body_written = Challenge (dot body ''challenge''), dispatched = None\<rparr>
      else if VERIFICATION_TOKEN cfg \<noteq> [] \<and> truthy (dot body ''token'')
              \<and> dot body ''token'' \<noteq> Some (JStr (VERIFICATION_TOKEN cfg))
      then \<lparr>status = 401, body_written = InvalidToken, dispatched = None\<rparr>
      else \<lparr>status = 200, body_written = Ok,
            dispatched =
              (if truthy (dot body ''event'')
               then (let eventType = (if truthy (dot (dot body ''header'') ''event_type'')
                                      then dot (dot body ''header'') ''event_type''
                                      else dot (dot body ''event'') ''type'')
                     in if is_str eventType ''im.message.receive_v1'' then dot body ''event''
                        else None)
               else None)\<rparr>)"

text \<open>
  \<^verbatim>\<open>
  if (req.method === "GET" && req.url === "/health") { ... 200 ...; return; }
  if (req.method !== "POST") { res.writeHead(405, ...); res.end("Method Not Allowed"); return; }
  ... read the body ...
  try { body = JSON.parse(bodyText); } catch { res.writeHead(400, ...); res.end("Invalid JSON"); return; }\<close>
\<close>

definition server :: "config \<Rightarrow> (jstring \<Rightarrow> json \<Rightarrow> json option) \<Rightarrow> http_request \<Rightarrow> http_response" where
  "server cfg decrypt req =
     (if req_method req = ascii ''GET'' \<and> req_url req = ascii ''/health''
      then \<lparr>status = 200, body_written = HealthOk, dispatched = None\<rparr>
      else if req_method req \<noteq> ascii ''POST''
      then \<lparr>status = 405, body_written = MethodNotAllowed, dispatched = None\<rparr>
      else (case req_body req of
              None \<Rightarrow> \<lparr>status = 400, body_written = InvalidJson, dispatched = None\<rparr>
            | Some body0 \<Rightarrow>
                (case effective_body cfg decrypt body0 of
                   None \<Rightarrow> \<lparr>status = 400, body_written = DecryptionFailed, dispatched = None\<rparr>
                 | Some b \<Rightarrow> respond cfg b)))"

text \<open>An event of the current Lark schema: the token is in the header, not at the top.\<close>

definition v2_event :: "jstring \<Rightarrow> json" where
  "v2_event tok =
     JObj [(ascii ''schema'', JStr (ascii ''2.0'')),
           (ascii ''header'',
              JObj [(ascii ''event_type'', JStr (ascii ''im.message.receive_v1'')),
                    (ascii ''token'', JStr tok)]),
           (ascii ''event'',
              JObj [(ascii ''message'', JObj [(ascii ''chat_id'', JStr (ascii ''oc_1''))])])]"

section \<open>Properties of the dedup map\<close>

lemma set_purge: "set (purge now seen) = {(k, ts) \<in> set seen. \<not> now - ts > SEEN_TTL_MS}"
  by (induction now seen rule: purge.induct) auto

lemma purge_keys_subset: "set (map fst (purge now seen)) \<subseteq> set (map fst seen)"
  by (induction now seen rule: purge.induct) auto

lemma distinct_purge: "distinct (map fst seen) \<Longrightarrow> distinct (map fst (purge now seen))"
proof (induction now seen rule: purge.induct)
  case (1 now)
  then show ?case by simp
next
  case (2 now k ts seen)
  then show ?case using purge_keys_subset [of now seen] by auto
qed

lemma seen_set_absent: "map_of seen k = None \<Longrightarrow> seen_set seen k v = seen @ [(k, v)]"
  by (induction seen k v rule: seen_set.induct) (auto split: if_splits)

lemma seen_has_mem: "(k, ts) \<in> set seen \<Longrightarrow> seen_has seen k"
  unfolding seen_has_def by (metis map_of_eq_None_iff fst_conv image_eqI)

lemma seen_has_iff: "seen_has seen k \<longleftrightarrow> (\<exists>ts. (k, ts) \<in> set seen)"
  unfolding seen_has_def
  by (metis map_of_SomeD not_None_eq map_of_eq_None_iff fst_conv image_eqI)


lemma isDuplicate_keeps:
  assumes "(m, t1) \<in> set seen" "t - t1 \<le> SEEN_TTL_MS"
  shows "(m, t1) \<in> set (snd (isDuplicate t k seen))"
proof -
  have p: "(m, t1) \<in> set (purge t seen)" using assms by (simp add: set_purge)
  show ?thesis
  proof (cases k)
    case None
    then show ?thesis using p by (simp add: isDuplicate_def)
  next
    case (Some x)
    show ?thesis
    proof (cases "x = [] \<or> seen_has (purge t seen) x")
      case True
      then show ?thesis using p Some by (auto simp: isDuplicate_def Let_def)
    next
      case False
      then have "map_of (purge t seen) x = None" by (simp add: seen_has_def)
      then have "seen_set (purge t seen) x t = purge t seen @ [(x, t)]" by (rule seen_set_absent)
      then show ?thesis using p Some False by (auto simp: isDuplicate_def Let_def)
    qed
  qed
qed

lemma isDuplicate_calls_keep:
  "(m, t1) \<in> set seen \<Longrightarrow> \<forall>(t, k) \<in> set cs. t - t1 \<le> SEEN_TTL_MS
     \<Longrightarrow> (m, t1) \<in> set (isDuplicate_calls cs seen)"
proof (induction cs arbitrary: seen)
  case Nil
  then show ?case by simp
next
  case (Cons c cs)
  obtain t k where c: "c = (t, k)" by (cases c)
  from Cons.prems have "t - t1 \<le> SEEN_TTL_MS" by (simp add: c)
  with Cons.prems(1) have "(m, t1) \<in> set (snd (isDuplicate t k seen))" by (rule isDuplicate_keeps)
  moreover from Cons.prems have "\<forall>(t, k) \<in> set cs. t - t1 \<le> SEEN_TTL_MS" by simp
  ultimately show ?case using Cons.IH by (simp add: c)
qed

lemma isDuplicate_records:
  assumes "m \<noteq> []" "\<not> fst (isDuplicate t1 (Some m) seen)"
  shows "snd (isDuplicate t1 (Some m) seen) = purge t1 seen @ [(m, t1)]"
proof -
  from assms have nh: "\<not> seen_has (purge t1 seen) m"
    by (auto simp: isDuplicate_def Let_def split: if_splits)
  then have "map_of (purge t1 seen) m = None" by (simp add: seen_has_def)
  then have "seen_set (purge t1 seen) m t1 = purge t1 seen @ [(m, t1)]" by (rule seen_set_absent)
  then show ?thesis using assms nh by (simp add: isDuplicate_def Let_def)
qed

lemma isDuplicate_present:
  assumes "m \<noteq> []" "(m, t1) \<in> set seen" "t2 - t1 \<le> SEEN_TTL_MS"
  shows "fst (isDuplicate t2 (Some m) seen)"
proof -
  have "(m, t1) \<in> set (purge t2 seen)" using assms by (simp add: set_purge)
  then have "seen_has (purge t2 seen) m" by (rule seen_has_mem)
  then show ?thesis using assms(1) by (simp add: isDuplicate_def Let_def)
qed

lemma isDuplicate_expired:
  assumes "\<forall>ts. (m, ts) \<in> set seen \<longrightarrow> now - ts > SEEN_TTL_MS"
  shows "isDuplicate now (Some m) seen =
           (False, if m = [] then purge now seen else purge now seen @ [(m, now)])"
proof -
  have "\<not> seen_has (purge now seen) m" using assms by (auto simp: seen_has_iff set_purge)
  moreover from this have "map_of (purge now seen) m = None" by (simp add: seen_has_def)
  then have "seen_set (purge now seen) m now = purge now seen @ [(m, now)]" by (rule seen_set_absent)
  ultimately show ?thesis by (simp add: isDuplicate_def Let_def)
qed

lemma isDuplicate_state:
  "snd (isDuplicate now mid seen) =
     (if mid = None \<or> mid = Some [] \<or> seen_has (purge now seen) (the mid) then purge now seen
      else purge now seen @ [(the mid, now)])"
proof (cases mid)
  case None
  then show ?thesis by (simp add: isDuplicate_def)
next
  case (Some m)
  show ?thesis
  proof (cases "m = [] \<or> seen_has (purge now seen) m")
    case True
    then show ?thesis using Some by (auto simp: isDuplicate_def Let_def)
  next
    case False
    then have "map_of (purge now seen) m = None" by (simp add: seen_has_def)
    then have "seen_set (purge now seen) m now = purge now seen @ [(m, now)]" by (rule seen_set_absent)
    then show ?thesis using Some False by (auto simp: isDuplicate_def Let_def)
  qed
qed

lemma isDuplicate_result:
  "fst (isDuplicate now mid seen) =
     (mid \<noteq> None \<and> mid \<noteq> Some [] \<and> seen_has (purge now seen) (the mid))"
  by (cases mid) (auto simp: isDuplicate_def Let_def)

text \<open>
  Claim C4. A call that records an id (it was absent after the purge, so the call answers
  false) makes every later call for that id answer true as long as the later call, and every
  call in between, comes no more than the TTL after the recording call. A call for an id
  all of whose records are older than the TTL answers false. Every call purges exactly the
  records older than the TTL, answers true exactly for a non-empty id that is still
  recorded after the purge, and appends the id with the current time when it answers false
  for a non-empty id. A missing or empty id is never a duplicate.
\<close>

theorem isDuplicate_ttl:
  "(\<forall>seen t1 t2 cs m. m \<noteq> [] \<and> \<not> fst (isDuplicate t1 (Some m) seen)
        \<and> (\<forall>(t, k) \<in> set cs. t - t1 \<le> SEEN_TTL_MS) \<and> t2 - t1 \<le> SEEN_TTL_MS
      \<longrightarrow> fst (isDuplicate t2 (Some m) (isDuplicate_calls cs (snd (isDuplicate t1 (Some m) seen)))))
   \<and> (\<forall>seen now m. (\<forall>ts. (m, ts) \<in> set seen \<longrightarrow> now - ts > SEEN_TTL_MS)
      \<longrightarrow> \<not> fst (isDuplicate now (Some m) seen))
   \<and> (\<forall>seen now mid.
        set (purge now seen) = {(k, ts) \<in> set seen. now - ts \<le> SEEN_TTL_MS}
      \<and> fst (isDuplicate now mid seen) =
          (mid \<noteq> None \<and> mid \<noteq> Some [] \<and> seen_has (purge now seen) (the mid))
      \<and> snd (isDuplicate now mid seen) =
          (if mid = None \<or> mid = Some [] \<or> seen_has (purge now seen) (the mid)
           then purge now seen else purge now seen @ [(the mid, now)]))
   \<and> (\<forall>seen now. \<not> fst (isDuplicate now None seen) \<and> \<not> fst (isDuplicate now (Some []) seen))"
proof (intro conjI allI impI)
  fix t1 t2 and seen :: seen_map and m :: jstring and cs :: "(int \<times> jstring option) list"
  assume a: "m \<noteq> [] \<and> \<not> fst (isDuplicate t1 (Some m) seen)
        \<and> (\<forall>(t, k) \<in> set cs. t - t1 \<le> SEEN_TTL_MS) \<and> t2 - t1 \<le> SEEN_TTL_MS"
  then have "snd (isDuplicate t1 (Some m) seen) = purge t1 seen @ [(m, t1)]"
    by (simp add: isDuplicate_records)
  then have "(m, t1) \<in> set (snd (isDuplicate t1 (Some m) seen))" by simp
  with a have "(m, t1) \<in> set (isDuplicate_calls cs (snd (isDuplicate t1 (Some m) seen)))"
    by (simp add: isDuplicate_calls_keep)
  with a show "fst (isDuplicate t2 (Some m) (isDuplicate_calls cs (snd (isDuplicate t1 (Some m) seen))))"
    by (simp add: isDuplicate_present)
next
  fix now and seen :: seen_map and m :: jstring
  assume "\<forall>ts. (m, ts) \<in> set seen \<longrightarrow> now - ts > SEEN_TTL_MS"
  then show "\<not> fst (isDuplicate now (Some m) seen)" by (simp add: isDuplicate_expired)
next
  fix now and seen :: seen_map and mid :: "jstring option"
  show "set (purge now seen) = {(k, ts) \<in> set seen. now - ts \<le> SEEN_TTL_MS}"
    by (auto simp: set_purge)
  show "fst (isDuplicate now mid seen) =
          (mid \<noteq> None \<and> mid \<noteq> Some [] \<and> seen_has (purge now seen) (the mid))"
    by (rule isDuplicate_result)
  show "snd (isDuplicate now mid seen) =
          (if mid = None \<or> mid = Some [] \<or> seen_has (purge now seen) (the mid)
           then purge now seen else purge now seen @ [(the mid, now)])"
    by (rule isDuplicate_state)
next
  fix now and seen :: seen_map
  show "\<not> fst (isDuplicate now None seen)" by (simp add: isDuplicate_def)
  show "\<not> fst (isDuplicate now (Some []) seen)" by (simp add: isDuplicate_def)
qed

theorem isDuplicate_ttl_witness:
  "fst (isDuplicate 600000 (Some (ascii ''om_1''))
          (isDuplicate_calls [(2000, Some (ascii ''om_2''))]
             (snd (isDuplicate 1000 (Some (ascii ''om_1'')) []))))
   \<and> \<not> fst (isDuplicate 700000 (Some (ascii ''om_1'')) [(ascii ''om_1'', 1000)])"
proof -
  have h1: "ascii ''om_1'' \<noteq> [] \<and> \<not> fst (isDuplicate 1000 (Some (ascii ''om_1'')) [])
      \<and> (\<forall>(t, k) \<in> set [(2000, Some (ascii ''om_2''))]. t - 1000 \<le> SEEN_TTL_MS)
      \<and> 600000 - 1000 \<le> SEEN_TTL_MS"
    by (simp add: isDuplicate_def seen_has_def ascii_def SEEN_TTL_MS_def)
  have h2: "\<forall>ts. (ascii ''om_1'', ts) \<in> set [(ascii ''om_1'', 1000)] \<longrightarrow> 700000 - ts > SEEN_TTL_MS"
    by (simp add: SEEN_TTL_MS_def)
  note a = isDuplicate_ttl [THEN conjunct1, rule_format,
      of "ascii ''om_1''" 1000 "[]" "[(2000, Some (ascii ''om_2''))]" 600000, OF h1]
  note b = isDuplicate_ttl [THEN conjunct2, THEN conjunct1, rule_format,
      of "ascii ''om_1''" "[(ascii ''om_1'', 1000)]" 700000]
  have "\<not> fst (isDuplicate 700000 (Some (ascii ''om_1'')) [(ascii ''om_1'', 1000)])"
    by (rule b) (simp add: SEEN_TTL_MS_def)
  with a show ?thesis by (rule conjI)
qed

section \<open>Properties of the session keys\<close>

lemma digit36_inj: "a < 36 \<Longrightarrow> b < 36 \<Longrightarrow> digit36 a = digit36 b \<Longrightarrow> a = b"
  by (auto simp: digit36_def split: if_splits)

lemma digit36_ge: "0x30 \<le> digit36 d"
  by (simp add: digit36_def)

lemma toString36_nat_ne: "toString36_nat n \<noteq> []"
  by (subst toString36_nat.simps) simp

lemma toString36_nat_len: "36 \<le> n \<Longrightarrow> 2 \<le> length (toString36_nat n)"
proof -
  assume "36 \<le> n"
  then have "toString36_nat n = toString36_nat (n div 36) @ [digit36 (n mod 36)]"
    by (subst toString36_nat.simps) simp
  moreover have "1 \<le> length (toString36_nat (n div 36))"
    using toString36_nat_ne [of "n div 36"] by (cases "toString36_nat (n div 36)") auto
  ultimately show ?thesis by simp
qed

lemma toString36_nat_small: "n < 36 \<Longrightarrow> toString36_nat n = [digit36 n]"
  by (subst toString36_nat.simps) simp

lemma toString36_nat_big:
  "36 \<le> n \<Longrightarrow> toString36_nat n = toString36_nat (n div 36) @ [digit36 (n mod 36)]"
  by (subst toString36_nat.simps) simp

lemma toString36_nat_inj: "toString36_nat n = toString36_nat m \<Longrightarrow> n = m"
proof (induction n arbitrary: m rule: toString36_nat.induct)
  case (1 n)
  show ?case
  proof (cases "n < 36")
    case True
    show ?thesis
    proof (cases "m < 36")
      case m: True
      with True "1.prems" show ?thesis
        by (simp add: toString36_nat_small digit36_inj)
    next
      case False
      then have "2 \<le> length (toString36_nat m)" by (simp add: toString36_nat_len)
      moreover from "1.prems" have "length (toString36_nat n) = length (toString36_nat m)"
        by simp
      moreover from True have "length (toString36_nat n) = 1" by (simp add: toString36_nat_small)
      ultimately show ?thesis by simp
    qed
  next
    case False
    show ?thesis
    proof (cases "m < 36")
      case True
      from False have "2 \<le> length (toString36_nat n)" by (simp add: toString36_nat_len)
      moreover from "1.prems" have "length (toString36_nat n) = length (toString36_nat m)"
        by simp
      moreover from True have "length (toString36_nat m) = 1" by (simp add: toString36_nat_small)
      ultimately show ?thesis by simp
    next
      case m: False
      from False m "1.prems"
      have e: "toString36_nat (n div 36) @ [digit36 (n mod 36)]
             = toString36_nat (m div 36) @ [digit36 (m mod 36)]"
        by (simp add: toString36_nat_big)
      then have pe: "toString36_nat (n div 36) = toString36_nat (m div 36)" by simp
      have d: "n div 36 = m div 36" by (rule "1.IH" [OF False pe])
      from e have dg: "digit36 (n mod 36) = digit36 (m mod 36)" by simp
      have "n mod 36 = m mod 36" by (rule digit36_inj) (simp_all add: dg)
      moreover have "n = 36 * (n div 36) + n mod 36" "m = 36 * (m div 36) + m mod 36"
        by simp_all
      ultimately show ?thesis using d by simp
    qed
  qed
qed

lemma toString36_nat_hd: "0x30 \<le> hd (toString36_nat n)"
proof (induction n rule: toString36_nat.induct)
  case (1 n)
  show ?case
  proof (cases "n < 36")
    case True
    then show ?thesis by (simp add: toString36_nat_small digit36_ge)
  next
    case False
    then have "hd (toString36_nat n) = hd (toString36_nat (n div 36))"
      by (simp add: toString36_nat_big toString36_nat_ne)
    with False "1.IH" show ?thesis by simp
  qed
qed

lemma toString36_ne: "toString36 t \<noteq> []"
  by (simp add: toString36_def toString36_nat_ne)

lemma toString36_inj: "toString36 a = toString36 b \<Longrightarrow> a = b"
proof -
  assume e: "toString36 a = toString36 b"
  have neg: "x < 0 \<Longrightarrow> hd (toString36 x) = 0x2D" for x by (simp add: toString36_def)
  have pos: "\<not> x < 0 \<Longrightarrow> 0x30 \<le> hd (toString36 x)" for x
    using toString36_nat_hd [of "nat x"] by (simp add: toString36_def)
  show "a = b"
  proof (cases "a < 0")
    case True
    have "b < 0"
    proof (rule ccontr)
      assume "\<not> b < 0"
      then have "0x30 \<le> hd (toString36 b)" by (rule pos)
      with neg [OF True] e show False by simp
    qed
    with True e have "toString36_nat (nat (- a)) = toString36_nat (nat (- b))"
      by (simp add: toString36_def)
    then have "nat (- a) = nat (- b)" by (rule toString36_nat_inj)
    with True \<open>b < 0\<close> show ?thesis by simp
  next
    case False
    have "\<not> b < 0"
    proof
      assume "b < 0"
      then have "hd (toString36 b) = 0x2D" by (rule neg)
      with pos [OF False] e show False by simp
    qed
    with False e have "toString36_nat (nat a) = toString36_nat (nat b)"
      by (simp add: toString36_def)
    then have "nat a = nat b" by (rule toString36_nat_inj)
    with False \<open>\<not> b < 0\<close> show ?thesis by simp
  qed
qed

lemma sessionKey_reset: "sessionKey (sessionReset t ov c) c = fullKey c (toString36 t)"
  by (simp add: sessionKey_def sessionReset_def fullKey_def toString36_ne)

lemma fullKey_inj: "fullKey c a = fullKey c b \<Longrightarrow> a = b"
  by (simp add: fullKey_def)

lemma fullKey_ne_base: "fullKey c a \<noteq> baseKey c"
  by (simp add: fullKey_def baseKey_def ascii_def)

lemma reset_other: "c' \<noteq> c \<Longrightarrow> sessionReset t ov c' c = ov c"
  by (simp add: sessionReset_def)

lemma sessionKey_cong: "ov c = ov' c \<Longrightarrow> sessionKey ov c = sessionKey ov' c"
  by (simp add: sessionKey_def)

lemma session_run_unchanged:
  "\<forall>t. Reset c t \<notin> set ops \<Longrightarrow> session_run ov ops c = ov c"
proof (induction ops arbitrary: ov)
  case Nil
  then show ?case by simp
next
  case (Cons x ops)
  then have r: "session_run (session_step ov x) ops c = session_step ov x c" by simp
  have "session_step ov x c = ov c"
  proof (cases x)
    case (Reset c' t)
    with Cons.prems have "c' \<noteq> c" by auto
    with Reset show ?thesis by (simp add: reset_other)
  next
    case (Resolve c')
    then show ?thesis by simp
  qed
  with r show ?case by simp
qed

lemma session_keys_shape:
  "ov c = None \<or> (\<exists>t \<in> T. ov c = Some (toString36 t)) \<Longrightarrow> k \<in> set (session_keys ov ops c)
    \<Longrightarrow> k = baseKey c \<or> (\<exists>t \<in> T \<union> set (reset_times ops c). k = fullKey c (toString36 t))"
proof (induction ov ops c arbitrary: T rule: session_keys.induct)
  case (1 ov c)
  then show ?case by simp
next
  case (2 ov c' now xs c)
  show ?case
  proof (cases "c' = c")
    case True
    have "sessionReset now ov c' c = None
        \<or> (\<exists>t \<in> insert now T. sessionReset now ov c' c = Some (toString36 t))"
      using True by (simp add: sessionReset_def)
    moreover from "2.prems" have "k \<in> set (session_keys (sessionReset now ov c') xs c)" by simp
    ultimately have "k = baseKey c
        \<or> (\<exists>t \<in> insert now T \<union> set (reset_times xs c). k = fullKey c (toString36 t))"
      by (rule "2.IH")
    with True show ?thesis by auto
  next
    case False
    then have "sessionReset now ov c' c = ov c" by (simp add: reset_other)
    with "2.prems" have "sessionReset now ov c' c = None
        \<or> (\<exists>t \<in> T. sessionReset now ov c' c = Some (toString36 t))" by simp
    moreover from "2.prems" have "k \<in> set (session_keys (sessionReset now ov c') xs c)" by simp
    ultimately have "k = baseKey c
        \<or> (\<exists>t \<in> T \<union> set (reset_times xs c). k = fullKey c (toString36 t))"
      by (rule "2.IH")
    with False show ?thesis by auto
  qed
next
  case (3 ov c' xs c)
  show ?case
  proof (cases "c' = c \<and> k = sessionKey ov c")
    case True
    with "3.prems"(1) show ?thesis
      by (auto simp: sessionKey_def fullKey_def baseKey_def toString36_ne)
  next
    case False
    with "3.prems" have "k \<in> set (session_keys ov xs c)" by (auto split: if_splits)
    note this [simp]
    with "3.prems"(1) have "k = baseKey c
        \<or> (\<exists>t \<in> T \<union> set (reset_times xs c). k = fullKey c (toString36 t))"
      by (rule "3.IH")
    then show ?thesis by simp
  qed
qed

text \<open>
  Claim C5, as amended. The key of a conversation is its base key alone when no non-empty
  suffix is stored, else the base key, a colon and the stored suffix. A history without a
  reset of the conversation leaves its key as it was (resolving is a read; resets of other
  conversations do not matter). Starting from the empty map, a reset of a conversation
  whose clock reading differs from the readings of all its earlier resets gives a key that
  is different from every key the history produced for that conversation.
\<close>

theorem sessionKey_fresh:
  "(\<forall>ov c. sessionKey ov c =
        (case ov c of None \<Rightarrow> baseKey c
         | Some suffix \<Rightarrow> if suffix \<noteq> [] then baseKey c @ ascii '':'' @ suffix else baseKey c))
   \<and> (\<forall>ov c ops. (\<forall>t. Reset c t \<notin> set ops)
        \<longrightarrow> sessionKey (session_run ov ops) c = sessionKey ov c)
   \<and> (\<forall>c ops t. t \<notin> set (reset_times ops c)
        \<longrightarrow> sessionKey (sessionReset t (session_run Map.empty ops) c) c
              \<notin> set (session_keys Map.empty ops c))"
proof (intro conjI allI impI)
  fix ov :: overrides and c
  show "sessionKey ov c =
        (case ov c of None \<Rightarrow> baseKey c
         | Some suffix \<Rightarrow> if suffix \<noteq> [] then baseKey c @ ascii '':'' @ suffix else baseKey c)"
    by (simp add: sessionKey_def baseKey_def split: option.splits)
next
  fix ov :: overrides and c ops
  assume "\<forall>t. Reset c t \<notin> set ops"
  then have "session_run ov ops c = ov c" by (rule session_run_unchanged)
  then show "sessionKey (session_run ov ops) c = sessionKey ov c" by (rule sessionKey_cong)
next
  fix c ops t
  assume fresh: "t \<notin> set (reset_times ops c)"
  let ?k = "sessionKey (sessionReset t (session_run Map.empty ops) c) c"
  have k: "?k = fullKey c (toString36 t)" by (rule sessionKey_reset)
  show "?k \<notin> set (session_keys Map.empty ops c)"
  proof
    assume "?k \<in> set (session_keys Map.empty ops c)"
    moreover have "Map.empty c = None \<or> (\<exists>t \<in> {}. Map.empty c = Some (toString36 t))" by simp
    ultimately have "?k = baseKey c
        \<or> (\<exists>t' \<in> {} \<union> set (reset_times ops c). ?k = fullKey c (toString36 t'))"
      by (rule session_keys_shape [rotated])
    with k fullKey_ne_base [of c "toString36 t"]
    obtain t' where t': "t' \<in> set (reset_times ops c)" "fullKey c (toString36 t) = fullKey c (toString36 t')"
      by auto
    from t'(2) have "toString36 t = toString36 t'" by (rule fullKey_inj)
    then have "t = t'" by (rule toString36_inj)
    with t'(1) fresh show False by simp
  qed
qed

text \<open>
  Two resets of one conversation in the same millisecond store the same suffix: the key
  after the second reset is the key already produced after the first. The key is also not
  the base key directly followed by the suffix: a colon separates them.
\<close>

theorem sessionKey_same_ms_counterexample:
  "sessionKey (sessionReset 1000 (session_run Map.empty [Reset (ascii ''oc_1'') 1000, Resolve (ascii ''oc_1'')])
       (ascii ''oc_1'')) (ascii ''oc_1'')
     \<in> set (session_keys Map.empty [Reset (ascii ''oc_1'') 1000, Resolve (ascii ''oc_1'')] (ascii ''oc_1''))
   \<and> sessionKey (sessionReset 1000 Map.empty (ascii ''oc_1'')) (ascii ''oc_1'')
     \<noteq> baseKey (ascii ''oc_1'') @ toString36 1000"
  by (simp add: sessionKey_def sessionReset_def baseKey_def toString36_ne ascii_def)

theorem sessionKey_fresh_witness:
  "sessionKey (session_run Map.empty [Resolve (ascii ''oc_1''), Reset (ascii ''oc_2'') 5]) (ascii ''oc_1'')
     = sessionKey Map.empty (ascii ''oc_1'')
   \<and> sessionKey (sessionReset 2000 (session_run Map.empty [Reset (ascii ''oc_1'') 1000, Resolve (ascii ''oc_1'')])
       (ascii ''oc_1'')) (ascii ''oc_1'')
     \<notin> set (session_keys Map.empty [Reset (ascii ''oc_1'') 1000, Resolve (ascii ''oc_1'')] (ascii ''oc_1''))"
proof -
  have h1: "Reset (ascii ''oc_1'') t \<notin> set [Resolve (ascii ''oc_1''), Reset (ascii ''oc_2'') 5]" for t
    by (simp add: ascii_def)
  have h2: "2000 \<notin> set (reset_times [Reset (ascii ''oc_1'') 1000, Resolve (ascii ''oc_1'')] (ascii ''oc_1''))"
    by simp
  note a = sessionKey_fresh [THEN conjunct2, THEN conjunct1, rule_format, OF h1, of Map.empty]
  note b = sessionKey_fresh [THEN conjunct2, THEN conjunct2, rule_format, OF h2]
  from a b show ?thesis by (rule conjI)
qed

section \<open>Properties of the group filter\<close>

lemma ends_question_iff: "ends_question s \<longleftrightarrow> s \<noteq> [] \<and> (last s = 0xFF1F \<or> last s = 0x3F)"
  by (induction s rule: ends_question.induct) auto

lemma startsWith_iff: "startsWith s k \<longleftrightarrow> (\<exists>post. s = k @ post)"
  by (induction s k rule: startsWith.induct) auto

lemma includes_str_iff: "includes_str s k \<longleftrightarrow> (\<exists>pre post. s = pre @ k @ post)"
proof (induction s)
  case Nil
  then show ?case by auto
next
  case (Cons c cs)
  show ?case
  proof
    assume "includes_str (c # cs) k"
    then consider "startsWith (c # cs) k" | "includes_str cs k" by auto
    then show "\<exists>pre post. c # cs = pre @ k @ post"
    proof cases
      case 1
      then obtain post where "c # cs = k @ post" by (auto simp: startsWith_iff)
      then have "c # cs = [] @ k @ post" by simp
      then show ?thesis by blast
    next
      case 2
      with Cons.IH obtain pre post where "cs = pre @ k @ post" by auto
      then have "c # cs = (c # pre) @ k @ post" by simp
      then show ?thesis by blast
    qed
  next
    assume "\<exists>pre post. c # cs = pre @ k @ post"
    then obtain pre post where e: "c # cs = pre @ k @ post" by blast
    show "includes_str (c # cs) k"
    proof (cases pre)
      case Nil
      with e have "startsWith (c # cs) k" by (auto simp: startsWith_iff)
      then show ?thesis by simp
    next
      case (Cons p pre')
      with e have "cs = pre' @ k @ post" by simp
      with Cons.IH have "includes_str cs k" by auto
      then show ?thesis by simp
    qed
  qed
qed

lemma startsWith_ci_iff:
  "startsWith_ci s k \<longleftrightarrow> (\<exists>head post. s = head @ post \<and> map canonicalize head = map canonicalize k)"
proof (induction s k rule: startsWith_ci.induct)
  case (1 s)
  then show ?case by simp
next
  case (2 k ks)
  then show ?case by simp
next
  case (3 c cs k ks)
  show ?case
  proof
    assume "startsWith_ci (c # cs) (k # ks)"
    then have ck: "canonicalize c = canonicalize k" and sw: "startsWith_ci cs ks" by auto
    from sw 3 obtain head post where "cs = head @ post" "map canonicalize head = map canonicalize ks"
      by auto
    with ck have "c # cs = (c # head) @ post \<and> map canonicalize (c # head) = map canonicalize (k # ks)"
      by simp
    then show "\<exists>head post. c # cs = head @ post \<and> map canonicalize head = map canonicalize (k # ks)"
      by blast
  next
    assume "\<exists>head post. c # cs = head @ post \<and> map canonicalize head = map canonicalize (k # ks)"
    then obtain head post where e: "c # cs = head @ post"
      and m: "map canonicalize head = map canonicalize (k # ks)" by blast
    from m obtain h hs where h: "head = h # hs" by (cases head) auto
    with e m have "canonicalize c = canonicalize k" "cs = hs @ post"
      "map canonicalize hs = map canonicalize ks" by auto
    with 3 show "startsWith_ci (c # cs) (k # ks)" by auto
  qed
qed

lemma question_words_shape:
  "w \<in> set question_words \<Longrightarrow> w \<noteq> [] \<and> is_word (hd w) \<and> is_word (last w)"
  by (auto simp: question_words_def ascii_def is_word_def is_digit_def)

lemma question_word_here_iff:
  "question_word_here prev s \<longleftrightarrow>
     \<not> prev \<and> (\<exists>w \<in> set question_words. \<exists>post. s = w @ post \<and> (post = [] \<or> \<not> is_word (hd post)))"
proof -
  have step: "word_boundary prev (w @ post) = (\<not> prev)
      \<and> word_boundary (is_word (last w)) (drop (length w) (w @ post))
          = (post = [] \<or> \<not> is_word (hd post))"
    if "w \<in> set question_words" for w post
  proof -
    from question_words_shape [OF that]
    have ne: "w \<noteq> []" and h: "is_word (hd w)" and l: "is_word (last w)" by simp_all
    from ne obtain x xs where w: "w = x # xs" by (cases w) auto
    with h have "word_boundary prev (w @ post) = (\<not> prev)" by (simp add: word_boundary_def)
    moreover from l have "word_boundary (is_word (last w)) (drop (length w) (w @ post))
          = (post = [] \<or> \<not> is_word (hd post))"
      by (cases post) (simp_all add: word_boundary_def)
    ultimately show ?thesis by (rule conjI)
  qed
  show ?thesis
  proof
    assume a: "question_word_here prev s"
    then obtain w where w: "w \<in> set question_words" "startsWith s w"
      "word_boundary (is_word (last w)) (drop (length w) s)"
      by (auto simp: question_word_here_def list_ex_iff)
    from w(2) obtain post where s: "s = w @ post" by (auto simp: startsWith_iff)
    from a have "word_boundary prev s" by (simp add: question_word_here_def)
    with step [OF w(1), of post] w(3) s have "\<not> prev" "post = [] \<or> \<not> is_word (hd post)"
      by auto
    with w(1) s show "\<not> prev \<and> (\<exists>w \<in> set question_words. \<exists>post. s = w @ post
        \<and> (post = [] \<or> \<not> is_word (hd post)))" by blast
  next
    assume "\<not> prev \<and> (\<exists>w \<in> set question_words. \<exists>post. s = w @ post
        \<and> (post = [] \<or> \<not> is_word (hd post)))"
    then obtain w post where np: "\<not> prev" and w: "w \<in> set question_words" and s: "s = w @ post"
      and p: "post = [] \<or> \<not> is_word (hd post)" by blast
    from step [OF w, of post] np p s
    have "word_boundary prev s" "word_boundary (is_word (last w)) (drop (length w) s)" by auto
    moreover from s have "startsWith s w" by (auto simp: startsWith_iff)
    ultimately show "question_word_here prev s"
      using w by (auto simp: question_word_here_def list_ex_iff)
  qed
qed

lemma question_word_from_iff:
  "question_word_from prev t \<longleftrightarrow>
     (\<exists>pre w post. t = pre @ w @ post \<and> w \<in> set question_words
        \<and> (if pre = [] then \<not> prev else \<not> is_word (last pre))
        \<and> (post = [] \<or> \<not> is_word (hd post)))"
proof (induction t arbitrary: prev)
  case Nil
  have "w \<noteq> []" if "w \<in> set question_words" for w using question_words_shape [OF that] by simp
  then show ?case by (auto simp: question_word_here_iff)
next
  case (Cons c cs)
  show ?case
  proof
    assume "question_word_from prev (c # cs)"
    then consider "question_word_here prev (c # cs)" | "question_word_from (is_word c) cs" by auto
    then show "\<exists>pre w post. c # cs = pre @ w @ post \<and> w \<in> set question_words
        \<and> (if pre = [] then \<not> prev else \<not> is_word (last pre))
        \<and> (post = [] \<or> \<not> is_word (hd post))"
    proof cases
      case 1
      then obtain w post where "\<not> prev" "w \<in> set question_words" "c # cs = w @ post"
        "post = [] \<or> \<not> is_word (hd post)" by (auto simp: question_word_here_iff)
      then have "c # cs = [] @ w @ post \<and> w \<in> set question_words
        \<and> (if [] = ([]::jstring) then \<not> prev else \<not> is_word (last []))
        \<and> (post = [] \<or> \<not> is_word (hd post))" by simp
      then show ?thesis by blast
    next
      case 2
      with Cons.IH [of "is_word c"] obtain pre w post where
        e: "cs = pre @ w @ post" and w: "w \<in> set question_words"
        and b: "if pre = [] then \<not> is_word c else \<not> is_word (last pre)"
        and p: "post = [] \<or> \<not> is_word (hd post)" by blast
      from b have "\<not> is_word (last (c # pre))" by (cases pre) auto
      with e w p have "c # cs = (c # pre) @ w @ post \<and> w \<in> set question_words
        \<and> (if c # pre = [] then \<not> prev else \<not> is_word (last (c # pre)))
        \<and> (post = [] \<or> \<not> is_word (hd post))" by simp
      then show ?thesis by blast
    qed
  next
    assume "\<exists>pre w post. c # cs = pre @ w @ post \<and> w \<in> set question_words
        \<and> (if pre = [] then \<not> prev else \<not> is_word (last pre))
        \<and> (post = [] \<or> \<not> is_word (hd post))"
    then obtain pre w post where e: "c # cs = pre @ w @ post" and w: "w \<in> set question_words"
      and b: "if pre = [] then \<not> prev else \<not> is_word (last pre)"
      and p: "post = [] \<or> \<not> is_word (hd post)" by blast
    show "question_word_from prev (c # cs)"
    proof (cases pre)
      case Nil
      with e w b p have "question_word_here prev (c # cs)"
        by (auto simp: question_word_here_iff)
      then show ?thesis by simp
    next
      case (Cons x pre')
      with e have c: "x = c" and cs: "cs = pre' @ w @ post" by auto
      from b Cons c have "if pre' = [] then \<not> is_word c else \<not> is_word (last pre')"
        by (cases pre') auto
      with cs w p have "\<exists>pre w post. cs = pre @ w @ post \<and> w \<in> set question_words
        \<and> (if pre = [] then \<not> is_word c else \<not> is_word (last pre))
        \<and> (post = [] \<or> \<not> is_word (hd post))" by blast
      with Cons.IH [of "is_word c"] have "question_word_from (is_word c) cs" by simp
      then show ?thesis by simp
    qed
  qed
qed

lemma has_question_word_iff:
  "has_question_word t \<longleftrightarrow>
     (\<exists>pre w post. t = pre @ w @ post \<and> w \<in> set question_words
        \<and> (pre = [] \<or> \<not> is_word (last pre)) \<and> (post = [] \<or> \<not> is_word (hd post)))"
proof -
  have b: "(if pre = [] then \<not> False else Q) = (pre = [] \<or> Q)" for pre :: jstring and Q
    by simp
  show ?thesis unfolding has_question_word_def question_word_from_iff b by (rule refl)
qed

lemma address_match_iff:
  "address_match text \<longleftrightarrow>
     (\<exists>a \<in> set address_terms. \<exists>head c rest. text = head @ c # rest
        \<and> map canonicalize head = map canonicalize a \<and> is_sep c)"
proof
  assume "address_match text"
  then obtain a where a: "a \<in> set address_terms" "startsWith_ci text a"
    and d: "case drop (length a) text of [] \<Rightarrow> False | c # _ \<Rightarrow> is_sep c"
    by (auto simp: address_match_def list_ex_iff)
  from a(2) obtain head post where t: "text = head @ post"
    and m: "map canonicalize head = map canonicalize a" by (auto simp: startsWith_ci_iff)
  from m have "length head = length a" by (rule map_eq_imp_length_eq)
  with t have "drop (length a) text = post" by simp
  with d obtain c rest where "post = c # rest" "is_sep c" by (cases post) auto
  with t m a(1) show "\<exists>a \<in> set address_terms. \<exists>head c rest. text = head @ c # rest
        \<and> map canonicalize head = map canonicalize a \<and> is_sep c" by blast
next
  assume "\<exists>a \<in> set address_terms. \<exists>head c rest. text = head @ c # rest
        \<and> map canonicalize head = map canonicalize a \<and> is_sep c"
  then obtain a head c rest where a: "a \<in> set address_terms" and t: "text = head @ c # rest"
    and m: "map canonicalize head = map canonicalize a" and s: "is_sep c" by blast
  from m have "length head = length a" by (rule map_eq_imp_length_eq)
  with t s have "case drop (length a) text of [] \<Rightarrow> False | c # _ \<Rightarrow> is_sep c" by simp
  moreover from t m have "startsWith_ci text a" by (auto simp: startsWith_ci_iff)
  ultimately show "address_match text" using a by (auto simp: address_match_def list_ex_iff)
qed

lemmas group_eval = shouldRespondInGroup_def ascii_def toLowerCase_def lower_unit_def
  has_question_word_def question_word_here_def word_boundary_def question_words_def
  is_word_def is_digit_def verbs_def address_match_def address_terms_def is_sep_def
  is_space_def canonicalize_def Let_def

lemma shouldRespondInGroup_disj:
  "shouldRespondInGroup text mentions \<longleftrightarrow>
     mentions \<noteq> [] \<or> ends_question text \<or> has_question_word (toLowerCase text)
     \<or> list_ex (\<lambda>k. includes_str text k) verbs \<or> address_match text"
  by (simp add: shouldRespondInGroup_def Let_def)

lemma verbs_iff:
  "list_ex (\<lambda>k. includes_str text k) verbs \<longleftrightarrow> (\<exists>v \<in> set verbs. \<exists>pre post. text = pre @ v @ post)"
  by (simp add: list_ex_iff includes_str_iff)

text \<open>
  The question words are found in the lower-cased text; what that means for the text
  itself. A letter of a question word comes only from that letter or its capital, so an
  occurrence in the lower-cased text is an occurrence, in some letter case, in the text.
\<close>

lemma lower_unit_ne: "lower_unit c \<noteq> []"
  by (simp add: lower_unit_def)

lemma toLowerCase_Cons: "toLowerCase (c # cs) = lower_unit c @ toLowerCase cs"
  by (simp add: toLowerCase_def)

lemma toLowerCase_append: "toLowerCase (a @ b) = toLowerCase a @ toLowerCase b"
  by (simp add: toLowerCase_def)

lemma toLowerCase_Nil_iff: "toLowerCase s = [] \<longleftrightarrow> s = []"
  by (cases s) (simp_all add: toLowerCase_def lower_unit_ne)

lemma hd_toLowerCase: "s \<noteq> [] \<Longrightarrow> hd (toLowerCase s) = hd (lower_unit (hd s))"
  by (cases s) (simp_all add: toLowerCase_Cons lower_unit_ne)

lemma last_toLowerCase: "s \<noteq> [] \<Longrightarrow> last (toLowerCase s) = last (lower_unit (last s))"
proof -
  assume "s \<noteq> []"
  then have "s = butlast s @ [last s]" by simp
  then have "toLowerCase s = toLowerCase (butlast s) @ lower_unit (last s)"
    by (metis toLowerCase_append toLowerCase_Cons toLowerCase_def append_Nil2 concat.simps(1) list.simps(8))
  then show ?thesis by (simp add: lower_unit_ne)
qed

lemma is_word_hd_lower: "is_word (hd (lower_unit c)) \<longleftrightarrow> is_word c \<or> c = 0x130 \<or> c = 0x212A"
  by (auto simp: lower_unit_def is_word_def is_digit_def)

lemma is_word_last_lower: "is_word (last (lower_unit c)) \<longleftrightarrow> is_word c \<or> c = 0x212A"
  by (auto simp: lower_unit_def is_word_def is_digit_def)

lemma question_words_letters: "w \<in> set question_words \<Longrightarrow> set w \<subseteq> question_letters"
  by (auto simp: question_words_def ascii_def question_letters_def)

lemma lower_unit_letter:
  "x \<in> question_letters \<Longrightarrow> x \<in> set (lower_unit c) \<Longrightarrow> lower_unit c = [x]"
  by (auto simp: question_letters_def lower_unit_def split: if_splits)

lemma lower_unit_canonicalize:
  "x \<in> question_letters \<Longrightarrow> lower_unit c = [x] \<longleftrightarrow> canonicalize c = canonicalize x"
  by (auto simp: question_letters_def lower_unit_def canonicalize_def split: if_splits)


lemma toLowerCase_word:
  "set w \<subseteq> question_letters \<Longrightarrow> toLowerCase v = w \<longleftrightarrow> map canonicalize v = map canonicalize w"
proof (induction v arbitrary: w)
  case Nil
  then show ?case by (auto simp: toLowerCase_def)
next
  case (Cons c cs)
  show ?case
  proof (cases w)
    case Nil
    then show ?thesis by (simp add: toLowerCase_Cons lower_unit_ne)
  next
    case (Cons x xs)
    with Cons.prems have x: "x \<in> question_letters" and xs: "set xs \<subseteq> question_letters" by auto
    have "toLowerCase (c # cs) = x # xs \<longleftrightarrow> lower_unit c = [x] \<and> toLowerCase cs = xs"
    proof
      assume a: "toLowerCase (c # cs) = x # xs"
      then have "hd (lower_unit c) = x" using lower_unit_ne [of c]
        by (cases "lower_unit c") (auto simp: toLowerCase_Cons)
      then have "x \<in> set (lower_unit c)" using lower_unit_ne [of c] by (cases "lower_unit c") auto
      from lower_unit_letter [OF x this] have u: "lower_unit c = [x]" .
      with a show "lower_unit c = [x] \<and> toLowerCase cs = xs" by (simp add: toLowerCase_Cons)
    next
      assume "lower_unit c = [x] \<and> toLowerCase cs = xs"
      then show "toLowerCase (c # cs) = x # xs" by (simp add: toLowerCase_Cons)
    qed
    also have "\<dots> \<longleftrightarrow> canonicalize c = canonicalize x \<and> map canonicalize cs = map canonicalize xs"
      using lower_unit_canonicalize [OF x] Cons.IH [OF xs] by simp
    finally show ?thesis using Cons by simp
  qed
qed

lemma toLowerCase_split_prefix:
  "toLowerCase s = w @ Q \<Longrightarrow> set w \<subseteq> question_letters \<Longrightarrow>
     \<exists>v post. s = v @ post \<and> toLowerCase v = w \<and> toLowerCase post = Q"
proof (induction w arbitrary: s)
  case Nil
  then have "s = [] @ s \<and> toLowerCase [] = ([]::jstring) \<and> toLowerCase s = Q"
    by (simp add: toLowerCase_def)
  then show ?case by blast
next
  case (Cons x xs)
  from Cons.prems have x: "x \<in> question_letters" and xs: "set xs \<subseteq> question_letters" by auto
  from Cons.prems(1) obtain c cs where s: "s = c # cs" by (cases s) (auto simp: toLowerCase_def)
  with Cons.prems(1) have a: "lower_unit c @ toLowerCase cs = x # xs @ Q"
    by (simp add: toLowerCase_Cons)
  then have "x \<in> set (lower_unit c)" using lower_unit_ne [of c] by (cases "lower_unit c") auto
  from lower_unit_letter [OF x this] have u: "lower_unit c = [x]" .
  with a have "toLowerCase cs = xs @ Q" by simp
  from Cons.IH [OF this xs] obtain v post where "cs = v @ post" "toLowerCase v = xs"
    "toLowerCase post = Q" by blast
  with s u have "s = (c # v) @ post \<and> toLowerCase (c # v) = x # xs \<and> toLowerCase post = Q"
    by (simp add: toLowerCase_Cons)
  then show ?case by blast
qed

lemma toLowerCase_split:
  "toLowerCase s = P @ w @ Q \<Longrightarrow> w \<noteq> [] \<Longrightarrow> set w \<subseteq> question_letters \<Longrightarrow>
     \<exists>pre v post. s = pre @ v @ post \<and> toLowerCase pre = P \<and> toLowerCase v = w
        \<and> toLowerCase post = Q"
proof (induction s arbitrary: P)
  case Nil
  then show ?case by (simp add: toLowerCase_def)
next
  case (Cons c cs)
  from Cons.prems(1) have "lower_unit c @ toLowerCase cs = P @ (w @ Q)"
    by (simp add: toLowerCase_Cons)
  then obtain us where
    "(lower_unit c = P @ us \<and> us @ toLowerCase cs = w @ Q)
     \<or> (lower_unit c @ us = P \<and> toLowerCase cs = us @ (w @ Q))"
    unfolding append_eq_append_conv2 by blast
  then consider
      (inside) us where "us \<noteq> []" "lower_unit c = P @ us" "us @ toLowerCase cs = w @ Q"
    | (after) us where "lower_unit c @ us = P" "toLowerCase cs = us @ w @ Q"
    by (cases "us = []") auto
  then show ?case
  proof cases
    case inside
    from Cons.prems(2) obtain x xs where w: "w = x # xs" by (cases w) auto
    with inside(1,3) have "hd us = x" by (cases us) auto
    with inside(1,2) have "x \<in> set (lower_unit c)" by (cases us) auto
    moreover from w Cons.prems(3) have "x \<in> question_letters" by simp
    ultimately have "lower_unit c = [x]" by (intro lower_unit_letter)
    with inside(1,2) have P: "P = []" by (cases P) auto
    with Cons.prems(1) have "toLowerCase (c # cs) = w @ Q" by simp
    from toLowerCase_split_prefix [OF this Cons.prems(3)]
    obtain v post where "c # cs = v @ post" "toLowerCase v = w" "toLowerCase post = Q" by blast
    with P have "c # cs = [] @ v @ post \<and> toLowerCase [] = P \<and> toLowerCase v = w
        \<and> toLowerCase post = Q" by (simp add: toLowerCase_def)
    then show ?thesis by blast
  next
    case after
    from Cons.IH [OF after(2) Cons.prems(2,3)]
    obtain pre v post where "cs = pre @ v @ post" "toLowerCase pre = us" "toLowerCase v = w"
      "toLowerCase post = Q" by blast
    with after(1) have "c # cs = (c # pre) @ v @ post \<and> toLowerCase (c # pre) = P
        \<and> toLowerCase v = w \<and> toLowerCase post = Q" by (simp add: toLowerCase_Cons)
    then show ?thesis by blast
  qed
qed

lemma question_word_in_text:
  "has_question_word (toLowerCase text) \<longleftrightarrow>
     (\<exists>pre v post. text = pre @ v @ post
        \<and> (\<exists>w \<in> set question_words. map canonicalize v = map canonicalize w)
        \<and> (pre = [] \<or> (\<not> is_word (last pre) \<and> last pre \<noteq> 0x212A))
        \<and> (post = [] \<or> (\<not> is_word (hd post) \<and> hd post \<noteq> 0x130 \<and> hd post \<noteq> 0x212A)))"
proof
  assume "has_question_word (toLowerCase text)"
  then obtain P w Q where t: "toLowerCase text = P @ w @ Q" and w: "w \<in> set question_words"
    and bP: "P = [] \<or> \<not> is_word (last P)" and bQ: "Q = [] \<or> \<not> is_word (hd Q)"
    unfolding has_question_word_iff by blast
  from w have ne: "w \<noteq> []" using question_words_shape by blast
  from w have ql: "set w \<subseteq> question_letters" by (rule question_words_letters)
  from toLowerCase_split [OF t ne ql] obtain pre v post where s: "text = pre @ v @ post"
    and lp: "toLowerCase pre = P" and lv: "toLowerCase v = w" and lq: "toLowerCase post = Q"
    by blast
  from lv ql have c: "map canonicalize v = map canonicalize w" by (simp add: toLowerCase_word)
  have "pre = [] \<or> (\<not> is_word (last pre) \<and> last pre \<noteq> 0x212A)"
  proof (cases "pre = []")
    case False
    with lp have "P \<noteq> []" "last P = last (lower_unit (last pre))"
      by (auto simp: toLowerCase_Nil_iff last_toLowerCase)
    with bP show ?thesis by (simp add: is_word_last_lower)
  qed simp
  moreover have "post = [] \<or> (\<not> is_word (hd post) \<and> hd post \<noteq> 0x130 \<and> hd post \<noteq> 0x212A)"
  proof (cases "post = []")
    case False
    with lq have "Q \<noteq> []" "hd Q = hd (lower_unit (hd post))"
      by (auto simp: toLowerCase_Nil_iff hd_toLowerCase)
    with bQ show ?thesis by (simp add: is_word_hd_lower)
  qed simp
  ultimately show "\<exists>pre v post. text = pre @ v @ post
        \<and> (\<exists>w \<in> set question_words. map canonicalize v = map canonicalize w)
        \<and> (pre = [] \<or> (\<not> is_word (last pre) \<and> last pre \<noteq> 0x212A))
        \<and> (post = [] \<or> (\<not> is_word (hd post) \<and> hd post \<noteq> 0x130 \<and> hd post \<noteq> 0x212A))"
    using s c w by blast
next
  assume "\<exists>pre v post. text = pre @ v @ post
        \<and> (\<exists>w \<in> set question_words. map canonicalize v = map canonicalize w)
        \<and> (pre = [] \<or> (\<not> is_word (last pre) \<and> last pre \<noteq> 0x212A))
        \<and> (post = [] \<or> (\<not> is_word (hd post) \<and> hd post \<noteq> 0x130 \<and> hd post \<noteq> 0x212A))"
  then obtain pre v post w where s: "text = pre @ v @ post" and w: "w \<in> set question_words"
    and c: "map canonicalize v = map canonicalize w"
    and bp: "pre = [] \<or> (\<not> is_word (last pre) \<and> last pre \<noteq> 0x212A)"
    and bq: "post = [] \<or> (\<not> is_word (hd post) \<and> hd post \<noteq> 0x130 \<and> hd post \<noteq> 0x212A)"
    by blast
  from w have ql: "set w \<subseteq> question_letters" by (rule question_words_letters)
  with c have lv: "toLowerCase v = w" by (simp add: toLowerCase_word)
  with s have t: "toLowerCase text = toLowerCase pre @ w @ toLowerCase post"
    by (simp add: toLowerCase_append)
  have "toLowerCase pre = [] \<or> \<not> is_word (last (toLowerCase pre))"
    using bp by (cases "pre = []") (auto simp: toLowerCase_Nil_iff last_toLowerCase is_word_last_lower)
  moreover have "toLowerCase post = [] \<or> \<not> is_word (hd (toLowerCase post))"
    using bq by (cases "post = []") (auto simp: toLowerCase_Nil_iff hd_toLowerCase is_word_hd_lower)
  ultimately show "has_question_word (toLowerCase text)"
    unfolding has_question_word_iff using t w by blast
qed

text \<open>
  Claim C6, as amended. The filter answers true exactly when the mention list is non-empty,
  or the text ends with an ASCII or full-width question mark, or the text contains one of
  the seven question words, in any letter case, as a whole word, or the text contains one
  of the sixteen Chinese keywords as they are written, or the text begins with an address
  term, in any letter case, directly followed by white space, a comma or a colon (ASCII or
  full-width). A whole word: the code unit directly before it, if any, is not an ASCII
  letter, digit or underscore and not the Kelvin sign U+212A (which lower-cases to "k"),
  and the code unit directly after it, if any, is none of these and not U+0130 (which
  lower-cases to "i" and a combining dot). In particular the filter answers true for
  "how do I deploy this?" and for "HELP me", false for "ok thanks" without mentions, and
  true for every text when the mention list is non-empty.
\<close>

theorem shouldRespondInGroup_iff:
  "(\<forall>text (mentions :: 'm list). shouldRespondInGroup text mentions \<longleftrightarrow>
       mentions \<noteq> []
     \<or> (text \<noteq> [] \<and> (last text = 0x3F \<or> last text = 0xFF1F))
     \<or> (\<exists>pre v post. text = pre @ v @ post
          \<and> (\<exists>w \<in> set question_words. map canonicalize v = map canonicalize w)
          \<and> (pre = [] \<or> (\<not> is_word (last pre) \<and> last pre \<noteq> 0x212A))
          \<and> (post = [] \<or> (\<not> is_word (hd post) \<and> hd post \<noteq> 0x130 \<and> hd post \<noteq> 0x212A)))
     \<or> (\<exists>v \<in> set verbs. \<exists>pre post. text = pre @ v @ post)
     \<or> (\<exists>a \<in> set address_terms. \<exists>head c rest. text = head @ c # rest
          \<and> map canonicalize head = map canonicalize a \<and> is_sep c))
   \<and> shouldRespondInGroup (ascii ''how do I deploy this?'') ([] :: 'm list)
   \<and> shouldRespondInGroup (ascii ''HELP me'') ([] :: 'm list)
   \<and> \<not> shouldRespondInGroup (ascii ''ok thanks'') ([] :: 'm list)
   \<and> (\<forall>text (mentions :: 'm list). mentions \<noteq> [] \<longrightarrow> shouldRespondInGroup text mentions)"
proof (intro conjI allI impI)
  fix s and mentions :: "'m list"
  have q: "ends_question s \<longleftrightarrow> s \<noteq> [] \<and> (last s = 0x3F \<or> last s = 0xFF1F)"
    by (auto simp: ends_question_iff)
  show "shouldRespondInGroup s mentions \<longleftrightarrow>
       mentions \<noteq> []
     \<or> (s \<noteq> [] \<and> (last s = 0x3F \<or> last s = 0xFF1F))
     \<or> (\<exists>pre v post. s = pre @ v @ post
          \<and> (\<exists>w \<in> set question_words. map canonicalize v = map canonicalize w)
          \<and> (pre = [] \<or> (\<not> is_word (last pre) \<and> last pre \<noteq> 0x212A))
          \<and> (post = [] \<or> (\<not> is_word (hd post) \<and> hd post \<noteq> 0x130 \<and> hd post \<noteq> 0x212A)))
     \<or> (\<exists>v \<in> set verbs. \<exists>pre post. s = pre @ v @ post)
     \<or> (\<exists>a \<in> set address_terms. \<exists>head c rest. s = head @ c # rest
          \<and> map canonicalize head = map canonicalize a \<and> is_sep c)"
    unfolding shouldRespondInGroup_disj q question_word_in_text verbs_iff address_match_iff
    by (rule refl)
next
  show "shouldRespondInGroup (ascii ''how do I deploy this?'') ([] :: 'm list)"
    by (simp add: group_eval)
next
  show "shouldRespondInGroup (ascii ''HELP me'') ([] :: 'm list)"
    by (simp add: group_eval)
next
  show "\<not> shouldRespondInGroup (ascii ''ok thanks'') ([] :: 'm list)"
    by (simp add: group_eval)
next
  fix s and mentions :: "'m list"
  assume "mentions \<noteq> []"
  then show "shouldRespondInGroup s mentions" by (simp add: shouldRespondInGroup_def)
qed

text \<open>
  A text that merely contains a question word, or begins with an address term followed
  by any punctuation, is not answered. The text "somehow ok" contains the question word
  "how" and the filter answers false: a question word counts as a whole word only. The
  text "bot! restart" begins with the address term "bot" followed by punctuation and the
  filter answers false: only white space, a comma or a colon may follow the address term.
\<close>

theorem shouldRespondInGroup_counterexample:
  "\<not> shouldRespondInGroup (ascii ''somehow ok'') ([] :: jstring list)
   \<and> ascii ''how'' \<in> set question_words
   \<and> includes_str (toLowerCase (ascii ''somehow ok'')) (ascii ''how'')
   \<and> \<not> shouldRespondInGroup (ascii ''bot! restart'') ([] :: jstring list)
   \<and> ascii ''bot'' \<in> set address_terms
   \<and> startsWith (ascii ''bot! restart'') (ascii ''bot'' @ ascii ''!'')"
  by (simp add: group_eval)

theorem shouldRespondInGroup_iff_witness:
  "shouldRespondInGroup (ascii ''ok thanks'') [ascii ''ou_1'']
   \<and> shouldRespondInGroup (ascii ''Bot, ok thanks'') ([] :: jstring list)
   \<and> shouldRespondInGroup (ascii ''ok, What now'') ([] :: jstring list)"
proof -
  have h1: "[ascii ''ou_1''] \<noteq> []" by simp
  have h2: "\<exists>a \<in> set address_terms. \<exists>head c rest. ascii ''Bot, ok thanks'' = head @ c # rest
          \<and> map canonicalize head = map canonicalize a \<and> is_sep c"
  proof (intro bexI exI conjI)
    show "ascii ''Bot, ok thanks'' = ascii ''Bot'' @ 0x2C # ascii '' ok thanks''"
      by (simp add: ascii_def)
    show "map canonicalize (ascii ''Bot'') = map canonicalize (ascii ''bot'')"
      by (simp add: ascii_def canonicalize_def)
    show "is_sep 0x2C" by (simp add: is_sep_def)
    show "ascii ''bot'' \<in> set address_terms" by (simp add: address_terms_def)
  qed
  have h3: "\<exists>pre v post. ascii ''ok, What now'' = pre @ v @ post
          \<and> (\<exists>w \<in> set question_words. map canonicalize v = map canonicalize w)
          \<and> (pre = [] \<or> (\<not> is_word (last pre) \<and> last pre \<noteq> 0x212A))
          \<and> (post = [] \<or> (\<not> is_word (hd post) \<and> hd post \<noteq> 0x130 \<and> hd post \<noteq> 0x212A))"
  proof (intro exI conjI bexI)
    show "ascii ''ok, What now'' = ascii ''ok, '' @ ascii ''What'' @ ascii '' now''"
      by (simp add: ascii_def)
    show "map canonicalize (ascii ''What'') = map canonicalize (ascii ''what'')"
      by (simp add: ascii_def canonicalize_def)
    show "ascii ''what'' \<in> set question_words" by (simp add: question_words_def)
    show "ascii ''ok, '' = [] \<or> (\<not> is_word (last (ascii ''ok, '')) \<and> last (ascii ''ok, '') \<noteq> 0x212A)"
      by (simp add: ascii_def is_word_def is_digit_def)
    show "ascii '' now'' = [] \<or> (\<not> is_word (hd (ascii '' now'')) \<and> hd (ascii '' now'') \<noteq> 0x130
        \<and> hd (ascii '' now'') \<noteq> 0x212A)"
      by (simp add: ascii_def is_word_def is_digit_def)
  qed
  note a = shouldRespondInGroup_iff [THEN conjunct2, THEN conjunct2, THEN conjunct2, THEN conjunct2,
      rule_format, OF h1, of "ascii ''ok thanks''"]
  have b: "shouldRespondInGroup (ascii ''Bot, ok thanks'') ([] :: jstring list)"
    using shouldRespondInGroup_iff [THEN conjunct1, rule_format,
      of "ascii ''Bot, ok thanks''" "[] :: jstring list"] h2 by blast
  have c: "shouldRespondInGroup (ascii ''ok, What now'') ([] :: jstring list)"
    using shouldRespondInGroup_iff [THEN conjunct1, rule_format,
      of "ascii ''ok, What now''" "[] :: jstring list"] h3 by blast
  from a b c show ?thesis by simp
qed

section \<open>Properties of the gateway exchange\<close>

lemmas frame_eval = on_message_def on_assistant_def on_lifecycle_def ws_step_def on_error_def
  challenge_frame_def res_frame_def stream_frame_def dot_def is_str_def or_default_def
  settle_def close_def send_def exchange_init_def ascii_def Let_def

lemma trim_Hello: "trim (ascii ''Hello'') = ascii ''Hello''"
  by (simp add: trim_def ascii_def is_space_def)

text \<open>
  Claim C1. Fed, in order, the challenge event, a successful connect response, a successful
  chat.send response that carries a run id, an assistant event of that run (on the agent
  or the chat stream) whose data carries the full text "Hello", and a lifecycle event of
  that run with phase "end", the exchange resolves with the reply text "Hello" (and no
  media), having sent the connect and the chat.send request and closed the socket once.
\<close>

theorem askMoltbot_hello:
  assumes "e1 = ''agent'' \<or> e1 = ''chat''" and "e2 = ''agent'' \<or> e2 = ''chat''"
  shows "ws_run prm env exchange_init
           [WsMessage (Some challenge_frame),
            WsMessage (Some (res_frame ''connect'' True [])),
            WsMessage (Some (res_frame ''chat-send'' True
                               [(ascii ''payload'', JObj [(ascii ''runId'', JStr r)])])),
            WsMessage (Some (stream_frame e1 (JStr r) ''assistant''
                               (JObj [(ascii ''text'', JStr (ascii ''Hello''))]))),
            WsMessage (Some (stream_frame e2 (JStr r) ''lifecycle''
                               (JObj [(ascii ''phase'', JStr (ascii ''end''))])))]
         = Inr \<lparr>runId = (if r = [] then None else Some (JStr r)),
                buf = ascii ''Hello'', mediaUrls = JArr [],
                sent = [ConnectReq (GATEWAY_TOKEN env),
                        ChatSendReq (chat_message prm env) (ask_sessionKey prm) (idempotencyKey env)],
                closes = 1,
                settled = Some (Resolved (ascii ''Hello'') (JArr []))\<rparr>"
proof -
  have t: "trim [72, 101, 108, 108, 111] = [72, 101, 108, 108, 111]"
    using trim_Hello by (simp add: ascii_def)
  from assms show ?thesis
    by (cases "r = []") (auto simp: frame_eval t)
qed

theorem askMoltbot_hello_witness:
  "(case ws_run \<lparr>ask_text = ascii ''hi'', ask_sessionKey = ascii ''larksuite:oc_1'',
                   ask_mediaPath = None\<rparr>
                 \<lparr>GATEWAY_TOKEN = ascii ''tok'', idempotencyKey = ascii ''u1'', copy_result = None\<rparr>
                 exchange_init
           [WsMessage (Some challenge_frame),
            WsMessage (Some (res_frame ''connect'' True [])),
            WsMessage (Some (res_frame ''chat-send'' True
                               [(ascii ''payload'', JObj [(ascii ''runId'', JStr (ascii ''run-1''))])])),
            WsMessage (Some (stream_frame ''agent'' (JStr (ascii ''run-1'')) ''assistant''
                               (JObj [(ascii ''text'', JStr (ascii ''Hello''))]))),
            WsMessage (Some (stream_frame ''chat'' (JStr (ascii ''run-1'')) ''lifecycle''
                               (JObj [(ascii ''phase'', JStr (ascii ''end''))])))]
    of Inl err \<Rightarrow> False
     | Inr s \<Rightarrow> settled s = Some (Resolved (ascii ''Hello'') (JArr [])) \<and> closes s = 1)"
proof -
  have h1: "''agent'' = ''agent'' \<or> ''agent'' = ''chat''" by simp
  have h2: "''chat'' = ''agent'' \<or> ''chat'' = ''chat''" by simp
  show ?thesis
    by (subst askMoltbot_hello [OF h1 h2]) (simp add: ascii_def)
qed

lemma close_step_refl: "close_step s s"
  by (simp add: close_step_def)

lemma close_step_settle: "close_step s (settle out (close s))"
  by (auto simp: close_step_def settle_def close_def split: option.splits)

lemma close_step_send: "close_step s (send r s)"
  by (simp add: close_step_def send_def)

lemma close_step_runId: "close_step s (s\<lparr>runId := r\<rparr>)"
  by (simp add: close_step_def)

lemma on_assistant_keeps: "closes (on_assistant p s) = closes s \<and> settled (on_assistant p s) = settled s"
  by (simp add: on_assistant_def Let_def split: option.splits)

lemma close_step_assistant: "close_step s (on_assistant p s)"
  by (simp add: close_step_def on_assistant_keeps)

lemma not_end_and_error: "\<not> (is_str v ''end'' \<and> is_str v ''error'')"
  by (auto simp: is_str_def ascii_def)

lemma close_step_lifecycle: "close_step s (on_lifecycle p s)"
proof -
  let ?ph = "dot (dot p ''data'') ''phase''"
  consider "is_str ?ph ''end''" "\<not> is_str ?ph ''error''"
    | "\<not> is_str ?ph ''end''" "is_str ?ph ''error''"
    | "\<not> is_str ?ph ''end''" "\<not> is_str ?ph ''error''"
    using not_end_and_error [of ?ph] by blast
  then show ?thesis
  proof cases
    case 1
    then show ?thesis by (simp add: on_lifecycle_def Let_def close_step_settle)
  next
    case 2
    then show ?thesis by (simp add: on_lifecycle_def Let_def close_step_settle)
  next
    case 3
    then show ?thesis by (simp add: on_lifecycle_def Let_def close_step_refl)
  qed
qed

lemma close_step_message: "on_message prm env raw s = Inr s' \<Longrightarrow> close_step s s'"
proof (cases raw)
  case None
  assume "on_message prm env raw s = Inr s'"
  with None show ?thesis by (simp add: on_message_def close_step_refl)
next
  case (Some m)
  assume a: "on_message prm env raw s = Inr s'"
  show ?thesis
  proof (cases "m = JNull")
    case True
    with a Some show ?thesis by (simp add: on_message_def)
  next
    case False
    with a Some have "s' = s \<or> s' = send (ConnectReq (GATEWAY_TOKEN env)) s
      \<or> (\<exists>out. s' = settle out (close s))
      \<or> s' = send (ChatSendReq (chat_message prm env) (ask_sessionKey prm) (idempotencyKey env)) s
      \<or> s' = s\<lparr>runId := dot (dot (Some m) ''payload'') ''runId''\<rparr>
      \<or> s' = on_assistant (dot (Some m) ''payload'') s
      \<or> s' = on_lifecycle (dot (Some m) ''payload'') s"
      by (cases m) (auto simp: on_message_def Let_def split: if_splits)
    then show ?thesis
      using close_step_refl close_step_send close_step_settle close_step_runId
        close_step_assistant close_step_lifecycle
      by (elim disjE exE) simp_all
  qed
qed

lemma close_step_error: "close_step s (on_error e s)"
  by (simp add: on_error_def close_step_settle)

lemma close_step_ws_step: "ws_step prm env s ev = Inr s' \<Longrightarrow> close_step s s'"
  by (cases ev) (auto simp: ws_step_def close_step_message close_step_error)

lemma closed_iff_settled_step:
  "close_step s s' \<Longrightarrow> closed_iff_settled s \<Longrightarrow> closed_iff_settled s'"
  by (auto simp: close_step_def closed_iff_settled_def)

lemma closed_iff_settled_run:
  "ws_run prm env s evs = Inr s' \<Longrightarrow> closed_iff_settled s \<Longrightarrow> closed_iff_settled s'"
proof (induction evs arbitrary: s)
  case Nil
  then show ?case by simp
next
  case (Cons ev evs)
  from Cons.prems(1) obtain s1 where s1: "ws_step prm env s ev = Inr s1"
    and r: "ws_run prm env s1 evs = Inr s'" by (auto split: sum.splits)
  from s1 have "close_step s s1" by (rule close_step_ws_step)
  with Cons.prems(2) have "closed_iff_settled s1" by (rule closed_iff_settled_step [rotated])
  with r show ?case by (rule Cons.IH)
qed

lemma closed_iff_settled_init: "closed_iff_settled exchange_init"
  by (simp add: closed_iff_settled_def exchange_init_def)

lemma first_settle_closes_once:
  assumes "closed_iff_settled s" "settled s = None" "ws_step prm env s ev = Inr s'"
    "settled s' \<noteq> None"
  shows "closes s' = 1"
proof -
  from assms(3) have "close_step s s'" by (rule close_step_ws_step)
  with assms(1,2,4) show ?thesis by (auto simp: close_step_def closed_iff_settled_def)
qed

lemma settle_pending:
  "settled s = None \<Longrightarrow> settled (settle out (close s)) = Some out \<and> closes (settle out (close s)) = closes s + 1"
  by (simp add: settle_def close_def)

lemma res_failure:
  assumes "is_str (dot (Some m) ''type'') ''res''" "is_str (dot (Some m) ''id'') rid"
    "rid = ''connect'' \<or> rid = ''chat-send''" "\<not> truthy (dot (Some m) ''ok'')"
  shows "on_message prm env (Some m) s =
           Inr (settle (Rejected (GatewayError (or_default (dot (dot (Some m) ''error'') ''message'')
                  (if rid = ''connect'' then ''connect failed'' else ''chat.send failed''))))
                  (close s))"
proof -
  from assms(1) have "m \<noteq> JNull" by (auto simp: is_str_def dot_def)
  with assms show ?thesis
    by (cases m) (auto simp: on_message_def Let_def is_str_def ascii_def)
qed

lemma accepted_stream:
  assumes "accepts s m"
  shows "on_message prm env (Some m) s =
           Inr (if is_str (dot (dot (Some m) ''payload'') ''stream'') ''assistant''
                then on_assistant (dot (Some m) ''payload'') s
                else if is_str (dot (dot (Some m) ''payload'') ''stream'') ''lifecycle''
                then on_lifecycle (dot (Some m) ''payload'') s
                else s)"
proof -
  from assms have "m \<noteq> JNull" by (auto simp: accepts_def is_str_def dot_def)
  with assms show ?thesis
    by (cases m) (auto simp: accepts_def on_message_def Let_def is_str_def ascii_def)
qed

lemma lifecycle_frame:
  assumes "accepts s m" "is_str (dot (dot (Some m) ''payload'') ''stream'') ''lifecycle''"
  shows "on_message prm env (Some m) s = Inr (on_lifecycle (dot (Some m) ''payload'') s)"
proof -
  have "\<not> is_str (dot (dot (Some m) ''payload'') ''stream'') ''assistant''"
    using assms(2) by (auto simp: is_str_def ascii_def)
  with assms show ?thesis by (simp add: accepted_stream)
qed

lemma lifecycle_end:
  assumes "is_str (dot (dot p ''data'') ''phase'') ''end''"
  shows "on_lifecycle p s = settle (Resolved (trim (buf s)) (mediaUrls s)) (close s)"
proof -
  have "\<not> is_str (dot (dot p ''data'') ''phase'') ''error''"
    using assms not_end_and_error by blast
  with assms show ?thesis by (simp add: on_lifecycle_def Let_def)
qed

lemma lifecycle_error:
  assumes "is_str (dot (dot p ''data'') ''phase'') ''error''"
  shows "on_lifecycle p s = settle (Rejected (GatewayError
           (or_default (dot (dot p ''data'') ''message'') ''agent error''))) (close s)"
proof -
  have "\<not> is_str (dot (dot p ''data'') ''phase'') ''end''"
    using assms not_end_and_error by blast
  with assms show ?thesis by (simp add: on_lifecycle_def Let_def)
qed

lemma settled_final_step:
  "close_step s s' \<Longrightarrow> settled s \<noteq> None \<Longrightarrow> settled s' = settled s \<and> closes s \<le> closes s'"
  by (auto simp: close_step_def)

lemma settled_final_run:
  "ws_run prm env s evs = Inr s' \<Longrightarrow> settled s \<noteq> None
    \<Longrightarrow> settled s' = settled s \<and> closes s \<le> closes s'"
proof (induction evs arbitrary: s)
  case Nil
  then show ?case by simp
next
  case (Cons ev evs)
  from Cons.prems(1) obtain s1 where s1: "ws_step prm env s ev = Inr s1"
    and r: "ws_run prm env s1 evs = Inr s'" by (auto split: sum.splits)
  from s1 have "close_step s s1" by (rule close_step_ws_step)
  with Cons.prems(2) have f: "settled s1 = settled s \<and> closes s \<le> closes s1"
    by (simp add: settled_final_step)
  with Cons.prems(2) have "settled s1 \<noteq> None" by simp
  with r have "settled s' = settled s1 \<and> closes s1 \<le> closes s'" by (rule Cons.IH)
  with f show ?case by simp
qed

text \<open>
  Claim C2. At every moment of a run from the initial state, the promise is settled exactly
  if the socket has been closed: it is never settled with the socket left open and never
  closed while pending. The handler call that settles the promise leaves the close count
  at exactly one. Each way into a terminal outcome does close and settle: a transport
  error at any state, a connect or chat.send response that is not ok, and an accepted
  lifecycle frame with phase "end" (success) or "error" (failure). Whatever arrives after
  the outcome is settled leaves the outcome as it is and the socket closed.
\<close>

theorem askMoltbot_closes_once:
  "(\<forall>prm env evs s. ws_run prm env exchange_init evs = Inr s
        \<longrightarrow> (settled s = None \<longleftrightarrow> closes s = 0))
   \<and> (\<forall>prm env evs s ev s'. ws_run prm env exchange_init evs = Inr s \<and> settled s = None
          \<and> ws_step prm env s ev = Inr s' \<and> settled s' \<noteq> None
        \<longrightarrow> closes s' = 1)
   \<and> (\<forall>prm env s e. settled s = None
        \<longrightarrow> (\<exists>s'. ws_step prm env s (WsError e) = Inr s'
               \<and> settled s' = Some (Rejected (TransportError e)) \<and> closes s' = closes s + 1))
   \<and> (\<forall>prm env s m rid. settled s = None \<and> is_str (dot (Some m) ''type'') ''res''
          \<and> is_str (dot (Some m) ''id'') rid \<and> (rid = ''connect'' \<or> rid = ''chat-send'')
          \<and> \<not> truthy (dot (Some m) ''ok'')
        \<longrightarrow> (\<exists>s' f. ws_step prm env s (WsMessage (Some m)) = Inr s'
               \<and> settled s' = Some (Rejected (GatewayError f)) \<and> closes s' = closes s + 1))
   \<and> (\<forall>prm env s m. settled s = None \<and> accepts s m
          \<and> is_str (dot (dot (Some m) ''payload'') ''stream'') ''lifecycle''
          \<and> is_str (dot (dot (dot (Some m) ''payload'') ''data'') ''phase'') ''end''
        \<longrightarrow> (\<exists>s'. ws_step prm env s (WsMessage (Some m)) = Inr s'
               \<and> settled s' = Some (Resolved (trim (buf s)) (mediaUrls s))
               \<and> closes s' = closes s + 1))
   \<and> (\<forall>prm env s m. settled s = None \<and> accepts s m
          \<and> is_str (dot (dot (Some m) ''payload'') ''stream'') ''lifecycle''
          \<and> is_str (dot (dot (dot (Some m) ''payload'') ''data'') ''phase'') ''error''
        \<longrightarrow> (\<exists>s' f. ws_step prm env s (WsMessage (Some m)) = Inr s'
               \<and> settled s' = Some (Rejected (GatewayError f)) \<and> closes s' = closes s + 1))
   \<and> (\<forall>prm env evs evs' s s'. ws_run prm env exchange_init evs = Inr s \<and> settled s \<noteq> None
          \<and> ws_run prm env s evs' = Inr s'
        \<longrightarrow> settled s' = settled s)
   \<and> (\<forall>prm env evs evs' s s'. ws_run prm env exchange_init evs = Inr s \<and> settled s \<noteq> None
          \<and> ws_run prm env s evs' = Inr s'
        \<longrightarrow> 1 \<le> closes s')"
proof (intro conjI allI impI)
  fix prm :: ask_params and env :: ask_env and s :: exchange and evs
  assume "ws_run prm env exchange_init evs = Inr s"
  then have "closed_iff_settled s"
    using closed_iff_settled_init by (rule closed_iff_settled_run)
  then show "settled s = None \<longleftrightarrow> closes s = 0" by (simp add: closed_iff_settled_def)
next
  fix prm :: ask_params and env :: ask_env and s s' :: exchange and evs ev
  assume a: "ws_run prm env exchange_init evs = Inr s \<and> settled s = None
          \<and> ws_step prm env s ev = Inr s' \<and> settled s' \<noteq> None"
  then have "closed_iff_settled s"
    using closed_iff_settled_init by (blast intro: closed_iff_settled_run)
  with a show "closes s' = 1" by (blast intro: first_settle_closes_once)
next
  fix prm :: ask_params and env :: ask_env and s :: exchange and e
  assume "settled s = None"
  then show "\<exists>s'. ws_step prm env s (WsError e) = Inr s'
               \<and> settled s' = Some (Rejected (TransportError e)) \<and> closes s' = closes s + 1"
    by (simp add: ws_step_def on_error_def settle_pending)
next
  fix prm :: ask_params and env :: ask_env and s :: exchange and m rid
  assume a: "settled s = None \<and> is_str (dot (Some m) ''type'') ''res''
          \<and> is_str (dot (Some m) ''id'') rid \<and> (rid = ''connect'' \<or> rid = ''chat-send'')
          \<and> \<not> truthy (dot (Some m) ''ok'')"
  then have "on_message prm env (Some m) s =
           Inr (settle (Rejected (GatewayError (or_default (dot (dot (Some m) ''error'') ''message'')
                  (if rid = ''connect'' then ''connect failed'' else ''chat.send failed''))))
                  (close s))"
    by (intro res_failure) simp_all
  with a show "\<exists>s' f. ws_step prm env s (WsMessage (Some m)) = Inr s'
               \<and> settled s' = Some (Rejected (GatewayError f)) \<and> closes s' = closes s + 1"
    by (simp add: ws_step_def settle_pending)
next
  fix prm :: ask_params and env :: ask_env and s :: exchange and m
  assume a: "settled s = None \<and> accepts s m
          \<and> is_str (dot (dot (Some m) ''payload'') ''stream'') ''lifecycle''
          \<and> is_str (dot (dot (dot (Some m) ''payload'') ''data'') ''phase'') ''end''"
  then have "on_message prm env (Some m) s
      = Inr (settle (Resolved (trim (buf s)) (mediaUrls s)) (close s))"
    by (simp add: lifecycle_frame lifecycle_end)
  with a show "\<exists>s'. ws_step prm env s (WsMessage (Some m)) = Inr s'
               \<and> settled s' = Some (Resolved (trim (buf s)) (mediaUrls s))
               \<and> closes s' = closes s + 1"
    by (simp add: ws_step_def settle_pending)
next
  fix prm :: ask_params and env :: ask_env and s :: exchange and m
  assume a: "settled s = None \<and> accepts s m
          \<and> is_str (dot (dot (Some m) ''payload'') ''stream'') ''lifecycle''
          \<and> is_str (dot (dot (dot (Some m) ''payload'') ''data'') ''phase'') ''error''"
  then have "on_message prm env (Some m) s
      = Inr (settle (Rejected (GatewayError
           (or_default (dot (dot (dot (Some m) ''payload'') ''data'') ''message'') ''agent error'')))
           (close s))"
    by (simp add: lifecycle_frame lifecycle_error)
  with a show "\<exists>s' f. ws_step prm env s (WsMessage (Some m)) = Inr s'
               \<and> settled s' = Some (Rejected (GatewayError f)) \<and> closes s' = closes s + 1"
    by (simp add: ws_step_def settle_pending)
next
  fix prm :: ask_params and env :: ask_env and s s' :: exchange and evs evs'
  assume a: "ws_run prm env exchange_init evs = Inr s \<and> settled s \<noteq> None
          \<and> ws_run prm env s evs' = Inr s'"
  then show "settled s' = settled s" by (blast dest: settled_final_run)
next
  fix prm :: ask_params and env :: ask_env and s s' :: exchange and evs evs'
  assume a: "ws_run prm env exchange_init evs = Inr s \<and> settled s \<noteq> None
          \<and> ws_run prm env s evs' = Inr s'"
  then have "closed_iff_settled s"
    using closed_iff_settled_init by (blast intro: closed_iff_settled_run)
  with a have "1 \<le> closes s" by (auto simp: closed_iff_settled_def)
  moreover from a have "closes s \<le> closes s'" by (blast dest: settled_final_run)
  ultimately show "1 \<le> closes s'" by simp
qed


theorem askMoltbot_closes_once_witness:
  "(case ws_run \<lparr>ask_text = ascii ''hi'', ask_sessionKey = ascii ''larksuite:oc_1'',
                   ask_mediaPath = None\<rparr>
                 \<lparr>GATEWAY_TOKEN = ascii ''tok'', idempotencyKey = ascii ''u1'', copy_result = None\<rparr>
                 exchange_init
           [WsMessage (Some challenge_frame), WsMessage (Some (res_frame ''connect'' False []))]
    of Inl err \<Rightarrow> False
     | Inr s \<Rightarrow> closes s = 1
          \<and> settled s = Some (Rejected (GatewayError (JStr (ascii ''connect failed'')))))"
proof -
  let ?prm = "\<lparr>ask_text = ascii ''hi'', ask_sessionKey = ascii ''larksuite:oc_1'',
                ask_mediaPath = None\<rparr>"
  let ?env = "\<lparr>GATEWAY_TOKEN = ascii ''tok'', idempotencyKey = ascii ''u1'', copy_result = None\<rparr>"
  let ?s1 = "send (ConnectReq (ascii ''tok'')) exchange_init"
  let ?s2 = "settle (Rejected (GatewayError (JStr (ascii ''connect failed'')))) (close ?s1)"
  have st1: "ws_step ?prm ?env exchange_init (WsMessage (Some challenge_frame)) = Inr ?s1"
    by (simp add: frame_eval)
  have r1: "ws_run ?prm ?env exchange_init [WsMessage (Some challenge_frame)] = Inr ?s1"
    by (simp add: st1)
  have st: "ws_step ?prm ?env ?s1 (WsMessage (Some (res_frame ''connect'' False []))) = Inr ?s2"
    by (simp add: frame_eval)
  have p1: "settled ?s1 = None" by (simp add: send_def exchange_init_def)
  have p2: "settled ?s2 = Some (Rejected (GatewayError (JStr (ascii ''connect failed''))))"
    by (simp add: settle_def close_def send_def exchange_init_def)
  from r1 p1 st p2 have h: "ws_run ?prm ?env exchange_init [WsMessage (Some challenge_frame)] = Inr ?s1
      \<and> settled ?s1 = None
      \<and> ws_step ?prm ?env ?s1 (WsMessage (Some (res_frame ''connect'' False []))) = Inr ?s2
      \<and> settled ?s2 \<noteq> None" by simp
  have c: "closes ?s2 = 1"
    by (rule askMoltbot_closes_once [THEN conjunct2, THEN conjunct1, rule_format, OF h])
  have "ws_run ?prm ?env exchange_init
           [WsMessage (Some challenge_frame), WsMessage (Some (res_frame ''connect'' False []))]
        = Inr ?s2"
    by (simp add: st1 st)
  with c p2 show ?thesis by simp
qed

lemma event_other_run:
  assumes "is_str (dot (Some m) ''type'') ''event''" "truthy (runId s)"
    "\<not> strict_eq (dot (dot (Some m) ''payload'') ''runId'') (runId s)"
  shows "on_message prm env (Some m) s = Inr s
       \<or> on_message prm env (Some m) s = Inr (send (ConnectReq (GATEWAY_TOKEN env)) s)"
proof -
  from assms(1) have "m \<noteq> JNull" by (auto simp: is_str_def dot_def)
  with assms show ?thesis
    by (cases m) (auto simp: on_message_def Let_def is_str_def ascii_def)
qed

lemma assistant_frame:
  assumes "accepts s m" "is_str (dot (dot (Some m) ''payload'') ''stream'') ''assistant''"
  shows "on_message prm env (Some m) s = Inr (on_assistant (dot (Some m) ''payload'') s)"
  using assms by (simp add: accepted_stream)

lemma data_truthy: "dot (dot p ''data'') k = Some v \<Longrightarrow> truthy (dot p ''data'')"
  by (cases "dot p ''data''" rule: truthy.cases) (auto simp: dot_def)

lemma on_assistant_text:
  assumes "dot (dot p ''data'') ''text'' = Some (JStr t)"
  shows "buf (on_assistant p s) = t"
  using assms data_truthy [OF assms]
  by (simp add: on_assistant_def Let_def split: option.splits)

lemma on_assistant_delta:
  assumes "as_string (dot (dot p ''data'') ''text'') = None"
    "dot (dot p ''data'') ''delta'' = Some (JStr dl)"
  shows "buf (on_assistant p s) = buf s @ dl"
  using assms data_truthy [OF assms(2)]
  by (simp add: on_assistant_def Let_def split: option.splits)

lemma on_assistant_media:
  assumes "dot (dot p ''data'') ''mediaUrls'' = Some (JArr xs)"
  shows "mediaUrls (on_assistant p s) = JArr xs"
  using assms data_truthy [OF assms]
  by (simp add: on_assistant_def Let_def split: option.splits)

text \<open>
  Claim C3. An event frame whose payload run id is not strictly equal to the recorded run
  id, once one is recorded, leaves the reply buffer and the media list (and the run id, the
  promise and the close count) as they are. An accepted assistant frame whose data carries
  a string \<open>text\<close> sets the buffer to it; one whose \<open>text\<close> is not a string and whose
  \<open>delta\<close> is a string appends the delta to the buffer; one whose data carries a
  \<open>mediaUrls\<close> list makes it the media list.
\<close>

theorem askMoltbot_stream:
  "(\<forall>prm env s m. is_str (dot (Some m) ''type'') ''event'' \<and> truthy (runId s)
        \<and> \<not> strict_eq (dot (dot (Some m) ''payload'') ''runId'') (runId s)
      \<longrightarrow> (\<exists>s'. on_message prm env (Some m) s = Inr s' \<and> buf s' = buf s
             \<and> mediaUrls s' = mediaUrls s \<and> runId s' = runId s \<and> settled s' = settled s
             \<and> closes s' = closes s))
   \<and> (\<forall>prm env s m t. accepts s m
        \<and> is_str (dot (dot (Some m) ''payload'') ''stream'') ''assistant''
        \<and> dot (dot (dot (Some m) ''payload'') ''data'') ''text'' = Some (JStr t)
      \<longrightarrow> (\<exists>s'. on_message prm env (Some m) s = Inr s' \<and> buf s' = t))
   \<and> (\<forall>prm env s m dl. accepts s m
        \<and> is_str (dot (dot (Some m) ''payload'') ''stream'') ''assistant''
        \<and> as_string (dot (dot (dot (Some m) ''payload'') ''data'') ''text'') = None
        \<and> dot (dot (dot (Some m) ''payload'') ''data'') ''delta'' = Some (JStr dl)
      \<longrightarrow> (\<exists>s'. on_message prm env (Some m) s = Inr s' \<and> buf s' = buf s @ dl))
   \<and> (\<forall>prm env s m xs. accepts s m
        \<and> is_str (dot (dot (Some m) ''payload'') ''stream'') ''assistant''
        \<and> dot (dot (dot (Some m) ''payload'') ''data'') ''mediaUrls'' = Some (JArr xs)
      \<longrightarrow> (\<exists>s'. on_message prm env (Some m) s = Inr s' \<and> mediaUrls s' = JArr xs))"
proof (intro conjI allI impI)
  fix prm :: ask_params and env :: ask_env and s :: exchange and m
  assume "is_str (dot (Some m) ''type'') ''event'' \<and> truthy (runId s)
        \<and> \<not> strict_eq (dot (dot (Some m) ''payload'') ''runId'') (runId s)"
  then have "on_message prm env (Some m) s = Inr s
       \<or> on_message prm env (Some m) s = Inr (send (ConnectReq (GATEWAY_TOKEN env)) s)"
    by (intro event_other_run) simp_all
  then show "\<exists>s'. on_message prm env (Some m) s = Inr s' \<and> buf s' = buf s
             \<and> mediaUrls s' = mediaUrls s \<and> runId s' = runId s \<and> settled s' = settled s
             \<and> closes s' = closes s"
    by (auto simp: send_def)
next
  fix prm :: ask_params and env :: ask_env and s :: exchange and m t
  assume "accepts s m
        \<and> is_str (dot (dot (Some m) ''payload'') ''stream'') ''assistant''
        \<and> dot (dot (dot (Some m) ''payload'') ''data'') ''text'' = Some (JStr t)"
  then show "\<exists>s'. on_message prm env (Some m) s = Inr s' \<and> buf s' = t"
    by (simp add: assistant_frame on_assistant_text)
next
  fix prm :: ask_params and env :: ask_env and s :: exchange and m dl
  assume "accepts s m
        \<and> is_str (dot (dot (Some m) ''payload'') ''stream'') ''assistant''
        \<and> as_string (dot (dot (dot (Some m) ''payload'') ''data'') ''text'') = None
        \<and> dot (dot (dot (Some m) ''payload'') ''data'') ''delta'' = Some (JStr dl)"
  then show "\<exists>s'. on_message prm env (Some m) s = Inr s' \<and> buf s' = buf s @ dl"
    by (simp add: assistant_frame on_assistant_delta)
next
  fix prm :: ask_params and env :: ask_env and s :: exchange and m xs
  assume "accepts s m
        \<and> is_str (dot (dot (Some m) ''payload'') ''stream'') ''assistant''
        \<and> dot (dot (dot (Some m) ''payload'') ''data'') ''mediaUrls'' = Some (JArr xs)"
  then show "\<exists>s'. on_message prm env (Some m) s = Inr s' \<and> mediaUrls s' = JArr xs"
    by (simp add: assistant_frame on_assistant_media)
qed

theorem askMoltbot_stream_witness:
  "(\<exists>s'. on_message
            \<lparr>ask_text = ascii ''hi'', ask_sessionKey = ascii ''larksuite:oc_1'', ask_mediaPath = None\<rparr>
            \<lparr>GATEWAY_TOKEN = ascii ''tok'', idempotencyKey = ascii ''u1'', copy_result = None\<rparr>
            (Some (stream_frame ''chat'' (JStr (ascii ''r2'')) ''assistant''
                     (JObj [(ascii ''text'', JStr (ascii ''X''))])))
            (exchange_init\<lparr>runId := Some (JStr (ascii ''r1'')), buf := ascii ''He''\<rparr>) = Inr s'
          \<and> buf s' = ascii ''He'')
   \<and> (\<exists>s'. on_message
            \<lparr>ask_text = ascii ''hi'', ask_sessionKey = ascii ''larksuite:oc_1'', ask_mediaPath = None\<rparr>
            \<lparr>GATEWAY_TOKEN = ascii ''tok'', idempotencyKey = ascii ''u1'', copy_result = None\<rparr>
            (Some (stream_frame ''chat'' (JStr (ascii ''r1'')) ''assistant''
                     (JObj [(ascii ''delta'', JStr (ascii ''llo''))])))
            (exchange_init\<lparr>runId := Some (JStr (ascii ''r1'')), buf := ascii ''He''\<rparr>) = Inr s'
          \<and> buf s' = ascii ''Hello'')"
proof -
  let ?prm = "\<lparr>ask_text = ascii ''hi'', ask_sessionKey = ascii ''larksuite:oc_1'',
                ask_mediaPath = None\<rparr>"
  let ?env = "\<lparr>GATEWAY_TOKEN = ascii ''tok'', idempotencyKey = ascii ''u1'', copy_result = None\<rparr>"
  let ?s = "exchange_init\<lparr>runId := Some (JStr (ascii ''r1'')), buf := ascii ''He''\<rparr>"
  let ?m1 = "stream_frame ''chat'' (JStr (ascii ''r2'')) ''assistant''
               (JObj [(ascii ''text'', JStr (ascii ''X''))])"
  let ?m2 = "stream_frame ''chat'' (JStr (ascii ''r1'')) ''assistant''
               (JObj [(ascii ''delta'', JStr (ascii ''llo''))])"
  have h1: "is_str (dot (Some ?m1) ''type'') ''event'' \<and> truthy (runId ?s)
        \<and> \<not> strict_eq (dot (dot (Some ?m1) ''payload'') ''runId'') (runId ?s)"
    by (simp add: stream_frame_def dot_def is_str_def ascii_def exchange_init_def)
  have h2: "accepts ?s ?m2
        \<and> is_str (dot (dot (Some ?m2) ''payload'') ''stream'') ''assistant''
        \<and> as_string (dot (dot (dot (Some ?m2) ''payload'') ''data'') ''text'') = None
        \<and> dot (dot (dot (Some ?m2) ''payload'') ''data'') ''delta'' = Some (JStr (ascii ''llo''))"
    by (simp add: accepts_def stream_frame_def dot_def is_str_def ascii_def exchange_init_def)
  from askMoltbot_stream [THEN conjunct1, rule_format, OF h1, of ?prm ?env]
  have a: "\<exists>s'. on_message ?prm ?env (Some ?m1) ?s = Inr s' \<and> buf s' = ascii ''He''"
    by (auto simp: exchange_init_def)
  from askMoltbot_stream [THEN conjunct2, THEN conjunct2, THEN conjunct1, rule_format, OF h2,
      of ?prm ?env]
  have b: "\<exists>s'. on_message ?prm ?env (Some ?m2) ?s = Inr s' \<and> buf s' = ascii ''Hello''"
    by (auto simp: exchange_init_def ascii_def)
  from a b show ?thesis by (rule conjI)
qed

section \<open>Properties of the message handler\<close>

lemma deliver_empty:
  "trim (reply_text r) = [] \<or> trim (reply_text r) = ascii ''NO_REPLY''
    \<Longrightarrow> deliver env chatId pid r = (if pid \<noteq> [] then [DeleteMessage pid] else [])"
  by (auto simp: deliver_def Let_def)

lemma commands_calls:
  "calls (commands env m chatId text1 mediaPath st) = [SendText chatId reset_confirmation]
   \<or> calls (commands env m chatId text1 mediaPath st)
       = [SendText chatId (status_text (sessionKey (bs_sessionOverrides st) chatId) chatId
            (msg_chat_type m))]
   \<or> calls (commands env m chatId text1 mediaPath st)
       = AskGateway text1 (sessionKey (bs_sessionOverrides st) chatId) mediaPath
         # placeholder_calls chatId (timer_state env)
         @ deliver env chatId (placeholderId_of (timer_state env))
             (case gateway_result env of
                Inr rep \<Rightarrow> rep
              | Inl e \<Rightarrow> \<lparr>reply_text = ascii ''(System error) '' @ e, reply_mediaUrls = JArr []\<rparr>)"
  by (simp add: commands_def Let_def)

lemma handleMessage_commands:
  assumes "calls (handleMessage env data st) \<noteq> []"
  obtains m chatId text0 mediaPath text1 where
    "data = Some m" "msg_chat_id m = Some chatId" "chatId \<noteq> []"
    "\<not> fst (isDuplicate (now_dedup env) (msg_message_id m) (bs_seen st))"
    "extract_content env m = Extracted text0 mediaPath"
    "\<not> (text0 = [] \<and> \<not> has_media mediaPath)"
    "group_filter m text0 mediaPath = Some text1"
    "handleMessage env data st
       = commands env m chatId text1 mediaPath
           (st\<lparr>bs_seen := snd (isDuplicate (now_dedup env) (msg_message_id m) (bs_seen st))\<rparr>)"
proof (cases data)
  case None
  with assms show ?thesis by (simp add: handleMessage_def)
next
  case (Some m)
  show ?thesis
  proof (cases "msg_chat_id m")
    case None
    with assms Some show ?thesis by (simp add: handleMessage_def)
  next
    case c: (Some chatId)
    show ?thesis
    proof (cases "extract_content env m")
      case Skip
      with assms Some c show ?thesis by (simp add: handleMessage_def Let_def split: if_splits)
    next
      case (Extracted text0 mediaPath)
      show ?thesis
      proof (cases "group_filter m text0 mediaPath")
        case None
        with assms Some c Extracted show ?thesis
          by (simp add: handleMessage_def Let_def split: if_splits)
      next
        case g: (Some text1)
        from assms Some c Extracted g
        have "chatId \<noteq> []"
          "\<not> fst (isDuplicate (now_dedup env) (msg_message_id m) (bs_seen st))"
          "\<not> (text0 = [] \<and> \<not> has_media mediaPath)"
          by (auto simp: handleMessage_def Let_def split: if_splits)
        moreover from this Some c Extracted g
        have "handleMessage env data st
           = commands env m chatId text1 mediaPath
               (st\<lparr>bs_seen := snd (isDuplicate (now_dedup env) (msg_message_id m) (bs_seen st))\<rparr>)"
          by (auto simp: handleMessage_def Let_def)
        ultimately show ?thesis using that Some c Extracted g by blast
      qed
    qed
  qed
qed

lemma deliver_no_ask: "AskGateway t k mp \<notin> set (deliver env chatId pid r)"
  by (auto simp: deliver_def Let_def image_calls_def split: option.splits)

lemma placeholder_no_ask: "AskGateway t k mp \<notin> set (placeholder_calls chatId ps)"
  by (simp add: placeholder_calls_def split: placeholder_state.splits)

lemma handleMessage_ask:
  assumes "AskGateway t k mp \<in> set (calls (handleMessage env data st))"
  shows "\<exists>chatId. calls (handleMessage env data st)
      = AskGateway t k mp
        # placeholder_calls chatId (timer_state env)
        @ deliver env chatId (placeholderId_of (timer_state env))
            (case gateway_result env of
               Inr rep \<Rightarrow> rep
             | Inl e \<Rightarrow> \<lparr>reply_text = ascii ''(System error) '' @ e, reply_mediaUrls = JArr []\<rparr>)"
proof -
  from assms have "calls (handleMessage env data st) \<noteq> []" by auto
  then obtain m chatId text1 mediaPath st1 where
    h: "handleMessage env data st = commands env m chatId text1 mediaPath st1"
    by (rule handleMessage_commands)
  from commands_calls [of env m chatId text1 mediaPath st1] assms h
  have c: "calls (commands env m chatId text1 mediaPath st1)
       = AskGateway text1 (sessionKey (bs_sessionOverrides st1) chatId) mediaPath
         # placeholder_calls chatId (timer_state env)
         @ deliver env chatId (placeholderId_of (timer_state env))
             (case gateway_result env of
                Inr rep \<Rightarrow> rep
              | Inl e \<Rightarrow> \<lparr>reply_text = ascii ''(System error) '' @ e, reply_mediaUrls = JArr []\<rparr>)"
    by auto
  with assms h deliver_no_ask placeholder_no_ask have "AskGateway t k mp
      = AskGateway text1 (sessionKey (bs_sessionOverrides st1) chatId) mediaPath" by auto
  with c h show ?thesis by auto
qed

text \<open>
  What the handler does with a reply whose trimmed text is empty or is "NO_REPLY": after
  the gateway call and the placeholder the timer may have sent, the only call is the
  deletion of the placeholder, and that only when its id has been recorded; no text, no
  patch, no image.
\<close>

lemma no_reply_calls:
  assumes "trim (reply_text r) = [] \<or> trim (reply_text r) = ascii ''NO_REPLY''"
  shows "deliver env chatId pid r = (if pid \<noteq> [] then [DeleteMessage pid] else [])
    \<and> (gateway_result env = Inr r
        \<and> AskGateway t k mp \<in> set (calls (handleMessage env data st))
       \<longrightarrow> (\<exists>c. calls (handleMessage env data st)
           = AskGateway t k mp
             # placeholder_calls c (timer_state env)
             @ (if placeholderId_of (timer_state env) \<noteq> []
                then [DeleteMessage (placeholderId_of (timer_state env))] else [])))"
proof (intro conjI impI)
  show "deliver env chatId pid r = (if pid \<noteq> [] then [DeleteMessage pid] else [])"
    using assms by (rule deliver_empty)
next
  assume a: "gateway_result env = Inr r
        \<and> AskGateway t k mp \<in> set (calls (handleMessage env data st))"
  then obtain c where "calls (handleMessage env data st)
      = AskGateway t k mp
        # placeholder_calls c (timer_state env)
        @ deliver env c (placeholderId_of (timer_state env)) r"
    using handleMessage_ask [of t k mp env data st] by auto
  then show "\<exists>c. calls (handleMessage env data st)
           = AskGateway t k mp
             # placeholder_calls c (timer_state env)
             @ (if placeholderId_of (timer_state env) \<noteq> []
                then [DeleteMessage (placeholderId_of (timer_state env))] else [])"
    by (auto simp: deliver_empty [OF assms])
qed

lemmas handler_eval = handleMessage_def isDuplicate_def seen_has_def extract_content_def
  text_message_def group_filter_def commands_def deliver_def example_env_def sessionKey_def
  baseKey_def trim_def is_space_def toLowerCase_def lower_unit_def image_calls_def
  media_items_def endsWith_def has_media_def match_mention_def is_digit_def dot_def
  timer_state_def placeholder_calls_def placeholderId_of_def ascii_def Let_def

text \<open>
  Claim C7. When the reply is "NO_REPLY" the placeholder, if one was sent, is to be
  deleted. The handler misses the placeholder whose \<open>create\<close> is still awaited when the
  gateway call finishes: the "Thinking" message has been sent to the conversation, the
  handler reads an empty \<open>placeholderId\<close> and returns, and nothing deletes the message.
  When the \<open>create\<close> has returned in time, the same reply does delete it.
\<close>

theorem placeholder_in_flight_not_deleted:
  "calls (handleMessage
            (example_env\<lparr>placeholder := CreateInFlight,
                          gateway_result := Inr \<lparr>reply_text = ascii ''NO_REPLY'',
                                                 reply_mediaUrls = JArr []\<rparr>\<rparr>)
            (Some (text_message (ascii ''oc_1'') (Some (ascii ''om_1'')) ''p2p'' (ascii ''hello'') None))
            \<lparr>bs_seen = [], bs_sessionOverrides = Map.empty\<rparr>)
   = [AskGateway (ascii ''hello'') (ascii ''larksuite:oc_1'') None,
      SendText (ascii ''oc_1'') thinking_text]
   \<and> calls (handleMessage
            (example_env\<lparr>placeholder := CreateReturned (ascii ''om_p''),
                          gateway_result := Inr \<lparr>reply_text = ascii ''NO_REPLY'',
                                                 reply_mediaUrls = JArr []\<rparr>\<rparr>)
            (Some (text_message (ascii ''oc_1'') (Some (ascii ''om_1'')) ''p2p'' (ascii ''hello'') None))
            \<lparr>bs_seen = [], bs_sessionOverrides = Map.empty\<rparr>)
   = [AskGateway (ascii ''hello'') (ascii ''larksuite:oc_1'') None,
      SendText (ascii ''oc_1'') thinking_text,
      DeleteMessage (ascii ''om_p'')]"
  by (simp add: handler_eval)

lemma strip_reset: "strip_mentions (ascii ''/reset'') = ascii ''/reset''"
  by (simp add: ascii_def match_mention_def)

lemma trim_reset: "trim (ascii ''/reset'') = ascii ''/reset''"
  by (simp add: trim_def is_space_def ascii_def)

lemma reset_not_relevant: "\<not> shouldRespondInGroup (ascii ''/reset'') ([] :: json list)"
  by (simp add: group_eval)

lemma extract_text_message:
  "extract_content env (text_message chatId mid chatType body ment) = Extracted (trim body) None"
  by (simp add: extract_content_def text_message_def dot_def ascii_def)

lemma group_filter_reset:
  "ment = None \<or> ment = Some (JArr [])
    \<Longrightarrow> group_filter (text_message chatId mid ''group'' (ascii ''/reset'') ment) (ascii ''/reset'') None = None"
  using reset_not_relevant
  by (auto simp: group_filter_def text_message_def strip_reset trim_reset has_media_def Let_def)

lemma group_reset_calls:
  assumes "ment = None \<or> ment = Some (JArr [])"
  shows "calls (handleMessage env (Some (text_message chatId mid ''group'' (ascii ''/reset'') ment)) st) = []
    \<and> bs_sessionOverrides (state_after
          (handleMessage env (Some (text_message chatId mid ''group'' (ascii ''/reset'') ment)) st))
        = bs_sessionOverrides st"
proof -
  have c: "msg_chat_id (text_message chatId mid ''group'' (ascii ''/reset'') ment) = Some chatId"
    by (simp add: text_message_def)
  show ?thesis
    by (simp add: handleMessage_def Let_def c extract_text_message trim_reset
        group_filter_reset [OF assms])
qed

text \<open>
  Claim C10. For a group message of type text whose text is exactly "/reset", without media
  and with an empty (or missing) mention list, the handler makes no call at all (no
  confirmation is sent) and leaves the session-override map as it was, whatever the
  environment and the state: the group filter has returned before the commands are
  looked at.
\<close>

theorem group_reset_ignored:
  "calls (handleMessage env
            (Some (text_message chatId mid ''group'' (ascii ''/reset'') (Some (JArr [])))) st) = []
   \<and> bs_sessionOverrides (state_after (handleMessage env
            (Some (text_message chatId mid ''group'' (ascii ''/reset'') (Some (JArr [])))) st))
       = bs_sessionOverrides st
   \<and> calls (handleMessage env
            (Some (text_message chatId mid ''group'' (ascii ''/reset'') None)) st) = []
   \<and> bs_sessionOverrides (state_after (handleMessage env
            (Some (text_message chatId mid ''group'' (ascii ''/reset'') None)) st))
       = bs_sessionOverrides st"
  using group_reset_calls [of "Some (JArr [])" env chatId mid st]
    group_reset_calls [of None env chatId mid st]
  by simp

theorem group_reset_ignored_witness:
  "calls (handleMessage example_env
            (Some (text_message (ascii ''oc_1'') (Some (ascii ''om_1'')) ''group'' (ascii ''/reset'')
                     (Some (JArr []))))
            \<lparr>bs_seen = [], bs_sessionOverrides = Map.empty\<rparr>) = []"
  using group_reset_ignored [of example_env "ascii ''oc_1''" "Some (ascii ''om_1'')"
      "\<lparr>bs_seen = [], bs_sessionOverrides = Map.empty\<rparr>"]
  by (rule conjunct1)

text \<open>In a direct chat the same text does reset the session.\<close>

lemma direct_chat_reset_applies:
  "handleMessage example_env
     (Some (text_message (ascii ''oc_1'') (Some (ascii ''om_1'')) ''p2p'' (ascii ''/reset'') None))
     \<lparr>bs_seen = [], bs_sessionOverrides = Map.empty\<rparr>
   = \<lparr>state_after = \<lparr>bs_seen = [(ascii ''om_1'', 1000)],
                      bs_sessionOverrides = [ascii ''oc_1'' \<mapsto> toString36 2000]\<rparr>,
      calls = [SendText (ascii ''oc_1'') reset_confirmation]\<rparr>"
  by (simp add: handler_eval sessionReset_def)

lemma match_mention_no_at: "c \<noteq> 0x40 \<Longrightarrow> match_mention (c # cs) = None"
  by (simp add: match_mention_def ascii_def)

lemma strip_mentions_prefix:
  "0x40 \<notin> set pre \<Longrightarrow> strip_mentions (pre @ s) = pre @ strip_mentions s"
  by (induction pre) (simp_all add: match_mention_no_at)

lemma space_not_digit: "is_space c \<Longrightarrow> \<not> is_digit c"
  by (auto simp: is_space_def is_digit_def)

lemma match_mention_token:
  assumes "ds \<noteq> []" "\<forall>d \<in> set ds. is_digit d" "\<forall>w \<in> set ws. is_space w"
    "post = [] \<or> (\<not> is_digit (hd post) \<and> \<not> is_space (hd post))"
  shows "match_mention (ascii ''@_user_'' @ ds @ ws @ post) = Some post"
proof -
  have sw: "startsWith (ascii ''@_user_'' @ ds @ ws @ post) (ascii ''@_user_'')"
    by (auto simp: startsWith_iff)
  have dr: "drop 7 (ascii ''@_user_'' @ ds @ ws @ post) = ds @ ws @ post"
    by (simp add: ascii_def)
  from assms(1,2) obtain d ds' where "ds = d # ds'" "is_digit d" by (cases ds) auto
  then have tw: "takeWhile is_digit (ds @ ws @ post) \<noteq> []" by simp
  have "dropWhile is_digit (ws @ post) = ws @ post"
  proof (cases ws)
    case Nil
    with assms(4) show ?thesis by (auto simp: dropWhile_eq_self_iff)
  next
    case (Cons w ws')
    with assms(3) have "\<not> is_digit w" by (simp add: space_not_digit)
    with Cons show ?thesis by simp
  qed
  with assms(2) have dd: "dropWhile is_digit (ds @ ws @ post) = ws @ post"
    by (simp add: dropWhile_append2)
  from assms(4) have "dropWhile is_space post = post" by (auto simp: dropWhile_eq_self_iff)
  with assms(3) have ds: "dropWhile is_space (ws @ post) = post"
    by (simp add: dropWhile_append2)
  from sw dr tw dd ds show ?thesis by (simp add: match_mention_def Let_def)
qed

lemma strip_mentions_token:
  assumes "0x40 \<notin> set pre" "ds \<noteq> []" "\<forall>d \<in> set ds. is_digit d" "\<forall>w \<in> set ws. is_space w"
    "post = [] \<or> (\<not> is_digit (hd post) \<and> \<not> is_space (hd post))"
  shows "strip_mentions (pre @ ascii ''@_user_'' @ ds @ ws @ post) = pre @ strip_mentions post"
proof -
  have "ascii ''@_user_'' @ ds @ ws @ post = 0x40 # (ascii ''_user_'' @ ds @ ws @ post)"
    by (simp add: ascii_def)
  moreover have "match_mention (ascii ''@_user_'' @ ds @ ws @ post) = Some post"
    using assms(2-5) by (rule match_mention_token)
  ultimately have "strip_mentions (ascii ''@_user_'' @ ds @ ws @ post) = strip_mentions post"
    by simp
  with assms(1) show ?thesis by (simp add: strip_mentions_prefix)
qed

lemma commands_ask:
  assumes "AskGateway t k mp \<in> set (calls (commands env m chatId text1 mediaPath st))"
  shows "t = text1 \<and> mp = mediaPath \<and> k = sessionKey (bs_sessionOverrides st) chatId
    \<and> toLowerCase (trim text1) \<noteq> ascii ''/reset'' \<and> toLowerCase (trim text1) \<noteq> ascii ''/status''"
  using assms deliver_no_ask placeholder_no_ask
  by (auto simp: commands_def Let_def split: if_splits)

lemma commands_overrides:
  "bs_sessionOverrides (state_after (commands env m chatId text1 mediaPath st))
     \<noteq> bs_sessionOverrides st \<Longrightarrow> toLowerCase (trim text1) = ascii ''/reset''"
  by (auto simp: commands_def Let_def split: if_splits)

lemma group_filter_group:
  assumes "msg_chat_type m = Some (ascii ''group'')" "group_filter m text0 mp = Some text1"
  shows "text1 = trim (strip_mentions text0)
    \<and> (\<not> has_media mp \<longrightarrow> shouldRespondInGroup text1
          (case msg_mentions m of Some (JArr xs) \<Rightarrow> xs | _ \<Rightarrow> []))"
  using assms by (auto simp: group_filter_def Let_def split: if_splits)

lemma group_filter_direct:
  "msg_chat_type m \<noteq> Some (ascii ''group'') \<Longrightarrow> group_filter m text0 mp = Some text0"
  by (simp add: group_filter_def)

lemma handleMessage_overrides:
  "bs_sessionOverrides (state_after (handleMessage env data st)) \<noteq> bs_sessionOverrides st
    \<Longrightarrow> calls (handleMessage env data st) \<noteq> []"
  by (auto simp: handleMessage_def Let_def commands_def split: option.splits extraction.splits if_splits)

lemma group_ask_stripped:
  assumes "extract_content env m = Extracted text0 mp0" "msg_chat_type m = Some (ascii ''group'')"
    "AskGateway t k mp \<in> set (calls (handleMessage env (Some m) st))"
  shows "t = trim (strip_mentions text0)
         \<and> (\<not> has_media mp0 \<longrightarrow> shouldRespondInGroup t
               (case msg_mentions m of Some (JArr xs) \<Rightarrow> xs | _ \<Rightarrow> []))
         \<and> toLowerCase (trim t) \<noteq> ascii ''/reset'' \<and> toLowerCase (trim t) \<noteq> ascii ''/status''"
proof -
  from assms(3) have "calls (handleMessage env (Some m) st) \<noteq> []" by auto
  then obtain m' chatId text0' mediaPath text1 where
    h: "Some m = Some m'" "extract_content env m' = Extracted text0' mediaPath"
      "group_filter m' text0' mediaPath = Some text1"
      "handleMessage env (Some m) st
         = commands env m' chatId text1 mediaPath
             (st\<lparr>bs_seen := snd (isDuplicate (now_dedup env) (msg_message_id m') (bs_seen st))\<rparr>)"
    by (rule handleMessage_commands)
  from h(1,2) assms(1) have e: "m' = m" "text0' = text0" "mediaPath = mp0" by auto
  from assms(3) h(4) have "t = text1 \<and> toLowerCase (trim text1) \<noteq> ascii ''/reset''
      \<and> toLowerCase (trim text1) \<noteq> ascii ''/status''"
    using commands_ask [of t k mp env m' chatId text1 mediaPath] by auto
  moreover from assms(2) h(3) e have "text1 = trim (strip_mentions text0)
    \<and> (\<not> has_media mp0 \<longrightarrow> shouldRespondInGroup text1
          (case msg_mentions m of Some (JArr xs) \<Rightarrow> xs | _ \<Rightarrow> []))"
    using group_filter_group [of m text0 mp0 text1] by auto
  ultimately show ?thesis by auto
qed

lemma group_reset_stripped:
  assumes "extract_content env m = Extracted text0 mp0" "msg_chat_type m = Some (ascii ''group'')"
    "bs_sessionOverrides (state_after (handleMessage env (Some m) st)) \<noteq> bs_sessionOverrides st"
  shows "toLowerCase (trim (trim (strip_mentions text0))) = ascii ''/reset''"
proof -
  from assms(3) have "calls (handleMessage env (Some m) st) \<noteq> []"
    by (rule handleMessage_overrides)
  then obtain m' chatId text0' mediaPath text1 where
    h: "Some m = Some m'" "extract_content env m' = Extracted text0' mediaPath"
      "group_filter m' text0' mediaPath = Some text1"
      "handleMessage env (Some m) st
         = commands env m' chatId text1 mediaPath
             (st\<lparr>bs_seen := snd (isDuplicate (now_dedup env) (msg_message_id m') (bs_seen st))\<rparr>)"
    by (rule handleMessage_commands)
  from h(1,2) assms(1) have e: "m' = m" "text0' = text0" "mediaPath = mp0" by auto
  from assms(2) h(3) e have t1: "text1 = trim (strip_mentions text0)"
    using group_filter_group [of m text0 mp0 text1] by auto
  from assms(3) h(4) have "toLowerCase (trim text1) = ascii ''/reset''"
    using commands_overrides [of env m' chatId text1 mediaPath
        "st\<lparr>bs_seen := snd (isDuplicate (now_dedup env) (msg_message_id m') (bs_seen st))\<rparr>"]
    by auto
  with t1 show ?thesis by simp
qed

lemma direct_ask_unchanged:
  assumes "extract_content env m = Extracted text0 mp0" "msg_chat_type m \<noteq> Some (ascii ''group'')"
    "AskGateway t k mp \<in> set (calls (handleMessage env (Some m) st))"
  shows "t = text0"
proof -
  from assms(3) have "calls (handleMessage env (Some m) st) \<noteq> []" by auto
  then obtain m' chatId text0' mediaPath text1 where
    h: "Some m = Some m'" "extract_content env m' = Extracted text0' mediaPath"
      "group_filter m' text0' mediaPath = Some text1"
      "handleMessage env (Some m) st
         = commands env m' chatId text1 mediaPath
             (st\<lparr>bs_seen := snd (isDuplicate (now_dedup env) (msg_message_id m') (bs_seen st))\<rparr>)"
    by (rule handleMessage_commands)
  from h(1,2) assms(1) have e: "m' = m" "text0' = text0" "mediaPath = mp0" by auto
  from assms(3) h(4) have "t = text1"
    using commands_ask [of t k mp env m' chatId text1 mediaPath] by auto
  moreover from assms(2) h(3) e have "text1 = text0" by (simp add: group_filter_direct)
  ultimately show ?thesis by simp
qed

text \<open>
  Claim C8, as amended. For a message of a group chat, the text given to the gateway is the
  extracted text with the mention tokens replaced by nothing and then trimmed; the group
  filter has answered true for that text when there is no media, and that text is neither
  of the two commands; a reset only happens when that text is the reset command. For a
  message of any other chat the text given to the gateway is the extracted text as it is.
  The replacement removes a token (the marker, one or more digits and the white space
  after them) that follows a text without an at sign.
\<close>

theorem mentions_stripped_in_groups:
  "(\<forall>env m st text0 mp0 t k mp.
       extract_content env m = Extracted text0 mp0 \<and> msg_chat_type m = Some (ascii ''group'')
       \<and> AskGateway t k mp \<in> set (calls (handleMessage env (Some m) st))
     \<longrightarrow> t = trim (strip_mentions text0)
         \<and> (\<not> has_media mp0 \<longrightarrow> shouldRespondInGroup t
               (case msg_mentions m of Some (JArr xs) \<Rightarrow> xs | _ \<Rightarrow> []))
         \<and> toLowerCase (trim t) \<noteq> ascii ''/reset'' \<and> toLowerCase (trim t) \<noteq> ascii ''/status'')
   \<and> (\<forall>env m st text0 mp0.
       extract_content env m = Extracted text0 mp0 \<and> msg_chat_type m = Some (ascii ''group'')
       \<and> bs_sessionOverrides (state_after (handleMessage env (Some m) st)) \<noteq> bs_sessionOverrides st
     \<longrightarrow> toLowerCase (trim (trim (strip_mentions text0))) = ascii ''/reset'')
   \<and> (\<forall>env m st text0 mp0 t k mp.
       extract_content env m = Extracted text0 mp0 \<and> msg_chat_type m \<noteq> Some (ascii ''group'')
       \<and> AskGateway t k mp \<in> set (calls (handleMessage env (Some m) st))
     \<longrightarrow> t = text0)
   \<and> (\<forall>pre ds ws post. 0x40 \<notin> set pre \<and> ds \<noteq> [] \<and> (\<forall>d \<in> set ds. is_digit d)
       \<and> (\<forall>w \<in> set ws. is_space w)
       \<and> (post = [] \<or> (\<not> is_digit (hd post) \<and> \<not> is_space (hd post)))
     \<longrightarrow> strip_mentions (pre @ ascii ''@_user_'' @ ds @ ws @ post) = pre @ strip_mentions post)"
proof (intro conjI)
  show "\<forall>env m st text0 mp0 t k mp.
       extract_content env m = Extracted text0 mp0 \<and> msg_chat_type m = Some (ascii ''group'')
       \<and> AskGateway t k mp \<in> set (calls (handleMessage env (Some m) st))
     \<longrightarrow> t = trim (strip_mentions text0)
         \<and> (\<not> has_media mp0 \<longrightarrow> shouldRespondInGroup t
               (case msg_mentions m of Some (JArr xs) \<Rightarrow> xs | _ \<Rightarrow> []))
         \<and> toLowerCase (trim t) \<noteq> ascii ''/reset'' \<and> toLowerCase (trim t) \<noteq> ascii ''/status''"
    using group_ask_stripped by blast
  show "\<forall>env m st text0 mp0.
       extract_content env m = Extracted text0 mp0 \<and> msg_chat_type m = Some (ascii ''group'')
       \<and> bs_sessionOverrides (state_after (handleMessage env (Some m) st)) \<noteq> bs_sessionOverrides st
     \<longrightarrow> toLowerCase (trim (trim (strip_mentions text0))) = ascii ''/reset''"
    using group_reset_stripped by blast
  show "\<forall>env m st text0 mp0 t k mp.
       extract_content env m = Extracted text0 mp0 \<and> msg_chat_type m \<noteq> Some (ascii ''group'')
       \<and> AskGateway t k mp \<in> set (calls (handleMessage env (Some m) st))
     \<longrightarrow> t = text0"
    using direct_ask_unchanged by blast
  show "\<forall>pre ds ws post. 0x40 \<notin> set pre \<and> ds \<noteq> [] \<and> (\<forall>d \<in> set ds. is_digit d)
       \<and> (\<forall>w \<in> set ws. is_space w)
       \<and> (post = [] \<or> (\<not> is_digit (hd post) \<and> \<not> is_space (hd post)))
     \<longrightarrow> strip_mentions (pre @ ascii ''@_user_'' @ ds @ ws @ post) = pre @ strip_mentions post"
    using strip_mentions_token by blast
qed

text \<open>
  In a direct chat the token stays: the text that reaches the gateway is not the stripped
  one.
\<close>

theorem direct_chat_mention_counterexample:
  "calls (handleMessage example_env
     (Some (text_message (ascii ''oc_1'') (Some (ascii ''om_1'')) ''p2p'' (ascii ''@_user_1 hi'') None))
     \<lparr>bs_seen = [], bs_sessionOverrides = Map.empty\<rparr>)
   = [AskGateway (ascii ''@_user_1 hi'') (ascii ''larksuite:oc_1'') None,
      SendText (ascii ''oc_1'') (ascii ''ok'')]
   \<and> trim (strip_mentions (ascii ''@_user_1 hi'')) = ascii ''hi''"
  by (simp add: handler_eval)

theorem mentions_stripped_in_groups_witness:
  "AskGateway (ascii ''how are you?'') (ascii ''larksuite:oc_1'') None
     \<in> set (calls (handleMessage example_env
          (Some (text_message (ascii ''oc_1'') (Some (ascii ''om_1'')) ''group''
                   (ascii ''@_user_1 how are you?'') None))
          \<lparr>bs_seen = [], bs_sessionOverrides = Map.empty\<rparr>))
   \<and> ascii ''how are you?'' = trim (strip_mentions (ascii ''@_user_1 how are you?''))"
proof -
  let ?m = "text_message (ascii ''oc_1'') (Some (ascii ''om_1'')) ''group''
              (ascii ''@_user_1 how are you?'') None"
  let ?st = "\<lparr>bs_seen = [], bs_sessionOverrides = Map.empty\<rparr>"
  have h: "extract_content example_env ?m = Extracted (ascii ''@_user_1 how are you?'') None
       \<and> msg_chat_type ?m = Some (ascii ''group'')
       \<and> AskGateway (ascii ''how are you?'') (ascii ''larksuite:oc_1'') None
            \<in> set (calls (handleMessage example_env (Some ?m) ?st))"
    by (simp add: handler_eval group_eval)
  from mentions_stripped_in_groups [THEN conjunct1, rule_format, OF h] h
  show ?thesis by simp
qed

section \<open>Properties of the webhook server\<close>

lemma server_post:
  assumes "req_method req = ascii ''POST''" "req_body req = Some b0"
    "effective_body cfg decrypt b0 = Some b"
  shows "server cfg decrypt req = respond cfg b"
  using assms by (simp add: server_def ascii_def)

lemma respond_mismatch:
  assumes "\<not> is_str (dot (Some b) ''type'') ''url_verification''" "VERIFICATION_TOKEN cfg \<noteq> []"
    "truthy (dot (Some b) ''token'')" "dot (Some b) ''token'' \<noteq> Some (JStr (VERIFICATION_TOKEN cfg))"
  shows "respond cfg b = \<lparr>status = 401, body_written = InvalidToken, dispatched = None\<rparr>"
  using assms by (simp add: respond_def Let_def)

lemma respond_dispatched:
  assumes "dispatched (respond cfg b) = Some ev"
  shows "status (respond cfg b) = 200 \<and> dot (Some b) ''event'' = Some ev
    \<and> (VERIFICATION_TOKEN cfg = [] \<or> \<not> truthy (dot (Some b) ''token'')
        \<or> dot (Some b) ''token'' = Some (JStr (VERIFICATION_TOKEN cfg)))"
  using assms by (auto simp: respond_def Let_def split: if_splits)

lemma server_dispatched:
  assumes "dispatched (server cfg decrypt req) = Some ev"
  shows "\<exists>b0 b. req_body req = Some b0 \<and> effective_body cfg decrypt b0 = Some b
     \<and> server cfg decrypt req = respond cfg b"
  using assms by (auto simp: server_def split: if_splits option.splits)

text \<open>
  What the token check does catch: a body that is not a url_verification challenge and
  has a truthy top-level \<open>token\<close> other than the configured one is answered 401 and no
  event is given to the message handler. Conversely an event is only given to the handler
  with status 200, from a body whose top-level token is the configured one or is missing
  or falsy, or when no token is configured.
\<close>

lemma top_level_token_checked:
  "(\<forall>cfg decrypt req b0 b. req_method req = ascii ''POST'' \<and> req_body req = Some b0
        \<and> effective_body cfg decrypt b0 = Some b
        \<and> \<not> is_str (dot (Some b) ''type'') ''url_verification''
        \<and> VERIFICATION_TOKEN cfg \<noteq> [] \<and> truthy (dot (Some b) ''token'')
        \<and> dot (Some b) ''token'' \<noteq> Some (JStr (VERIFICATION_TOKEN cfg))
      \<longrightarrow> status (server cfg decrypt req) = 401
          \<and> body_written (server cfg decrypt req) = InvalidToken
          \<and> dispatched (server cfg decrypt req) = None)
   \<and> (\<forall>cfg decrypt req ev. dispatched (server cfg decrypt req) = Some ev
      \<longrightarrow> status (server cfg decrypt req) = 200
          \<and> (\<exists>b0 b. req_body req = Some b0 \<and> effective_body cfg decrypt b0 = Some b
                \<and> dot (Some b) ''event'' = Some ev
                \<and> (VERIFICATION_TOKEN cfg = [] \<or> \<not> truthy (dot (Some b) ''token'')
                    \<or> dot (Some b) ''token'' = Some (JStr (VERIFICATION_TOKEN cfg)))))"
proof (intro conjI)
  show "\<forall>cfg decrypt req b0 b. req_method req = ascii ''POST'' \<and> req_body req = Some b0
        \<and> effective_body cfg decrypt b0 = Some b
        \<and> \<not> is_str (dot (Some b) ''type'') ''url_verification''
        \<and> VERIFICATION_TOKEN cfg \<noteq> [] \<and> truthy (dot (Some b) ''token'')
        \<and> dot (Some b) ''token'' \<noteq> Some (JStr (VERIFICATION_TOKEN cfg))
      \<longrightarrow> status (server cfg decrypt req) = 401
          \<and> body_written (server cfg decrypt req) = InvalidToken
          \<and> dispatched (server cfg decrypt req) = None"
    by (simp add: server_post respond_mismatch)
  show "\<forall>cfg decrypt req ev. dispatched (server cfg decrypt req) = Some ev
      \<longrightarrow> status (server cfg decrypt req) = 200
          \<and> (\<exists>b0 b. req_body req = Some b0 \<and> effective_body cfg decrypt b0 = Some b
                \<and> dot (Some b) ''event'' = Some ev
                \<and> (VERIFICATION_TOKEN cfg = [] \<or> \<not> truthy (dot (Some b) ''token'')
                    \<or> dot (Some b) ''token'' = Some (JStr (VERIFICATION_TOKEN cfg))))"
  proof (intro allI impI)
    fix cfg decrypt req ev
    assume a: "dispatched (server cfg decrypt req) = Some ev"
    then obtain b0 b where b: "req_body req = Some b0" "effective_body cfg decrypt b0 = Some b"
      "server cfg decrypt req = respond cfg b"
      using server_dispatched by blast
    with a have "dispatched (respond cfg b) = Some ev" by simp
    from respond_dispatched [OF this] b
    show "status (server cfg decrypt req) = 200
          \<and> (\<exists>b0 b. req_body req = Some b0 \<and> effective_body cfg decrypt b0 = Some b
                \<and> dot (Some b) ''event'' = Some ev
                \<and> (VERIFICATION_TOKEN cfg = [] \<or> \<not> truthy (dot (Some b) ''token'')
                    \<or> dot (Some b) ''token'' = Some (JStr (VERIFICATION_TOKEN cfg))))"
      by auto
  qed
qed

lemmas server_eval = server_def effective_body_def respond_def v2_event_def dot_def is_str_def
  ascii_def Let_def

text \<open>
  Claim C9. A POST request that carries an event whose token does not match the configured
  verification token is to be answered 401, with no event processing. The server misses
  the events of schema 2.0, which carry their token in the header: whatever the
  configured token, whatever the token of the event, such an event is answered 200 and
  given to the message handler. So is an event with an empty top-level token. The same
  wrong token at the top level of the body is answered 401.
\<close>

theorem header_token_not_verified:
  "status (server cfg decrypt
             \<lparr>req_method = ascii ''POST'', req_url = url, req_body = Some (v2_event tok)\<rparr>) = 200
   \<and> dispatched (server cfg decrypt
             \<lparr>req_method = ascii ''POST'', req_url = url, req_body = Some (v2_event tok)\<rparr>)
       = Some (JObj [(ascii ''message'', JObj [(ascii ''chat_id'', JStr (ascii ''oc_1''))])])
   \<and> dispatched (server \<lparr>ENCRYPT_KEY = [], VERIFICATION_TOKEN = ascii ''secret''\<rparr> (\<lambda>k d. None)
            \<lparr>req_method = ascii ''POST'', req_url = ascii ''/webhook'',
             req_body = Some (v2_event (ascii ''wrong''))\<rparr>)
       = Some (JObj [(ascii ''message'', JObj [(ascii ''chat_id'', JStr (ascii ''oc_1''))])])
   \<and> dispatched (server \<lparr>ENCRYPT_KEY = [], VERIFICATION_TOKEN = ascii ''secret''\<rparr> (\<lambda>k d. None)
            \<lparr>req_method = ascii ''POST'', req_url = ascii ''/webhook'',
             req_body = Some (JObj [(ascii ''token'', JStr []),
                          (ascii ''event'', JObj [(ascii ''type'', JStr (ascii ''im.message.receive_v1''))])])\<rparr>)
       = Some (JObj [(ascii ''type'', JStr (ascii ''im.message.receive_v1''))])
   \<and> status (server \<lparr>ENCRYPT_KEY = [], VERIFICATION_TOKEN = ascii ''secret''\<rparr> (\<lambda>k d. None)
            \<lparr>req_method = ascii ''POST'', req_url = ascii ''/webhook'',
             req_body = Some (JObj [(ascii ''token'', JStr (ascii ''wrong'')),
                          (ascii ''event'', JObj [(ascii ''type'', JStr (ascii ''im.message.receive_v1''))])])\<rparr>)
       = 401"
  by (simp add: server_eval)

end
